theory Spec2Isabelle
  imports Complex_Main "HOL-Library.Word" "HOL-Library.Monad_Syntax" "HOL-Library.Log_Nat"
begin

unbundle bit_operations_syntax

section \<open>The delay line of delay.cpp\<close>

text \<open>
  The embedding follows \<^verbatim>\<open>src/src/delay.cpp\<close>. \<^verbatim>\<open>unsigned long\<close> is the 64-bit
  unsigned integer of an LP64 platform, so that additions, subtractions and shifts
  wrap around. A value of \<^verbatim>\<open>LADSPA_Data\<close> (a C \<^verbatim>\<open>float\<close>, IEEE binary32) is the real
  number that it stands for; there are no infinities and no NaN. Where a
  floating-point result decides a whole number, that is in the conversion of the sample
  rate to \<^verbatim>\<open>LADSPA_Data\<close> and in the two products that are cast to \<^verbatim>\<open>unsigned long\<close>,
  the result is rounded to binary32 as the hardware does (\<open>binary32\<close> below); the
  arithmetic on the samples (the mix and the feedback) is exact arithmetic on the
  reals. Every array access is checked against the length of the array and every
  cast of a floating-point value to \<^verbatim>\<open>unsigned long\<close> against the range of the type;
  \<open>None\<close> is undefined behaviour or a loop that does not return.
\<close>

type_synonym ulong = "64 word"

type_synonym LADSPA_Data = real

subsection \<open>Helpers of the language\<close>

text \<open>
  The macro \<^verbatim>\<open>LIMIT_BETWEEN(x, a, b)\<close>:
  \<^verbatim>\<open>(((x) < a) ? a : (((x) > b) ? b : (x)))\<close>.
\<close>

definition LIMIT_BETWEEN :: "LADSPA_Data \<Rightarrow> LADSPA_Data \<Rightarrow> LADSPA_Data \<Rightarrow> LADSPA_Data" where
  "LIMIT_BETWEEN x a b = (if x < a then a else if x > b then b else x)"

text \<open>
  Rounding to binary32, to the nearest value and to the even one of two nearest values:
  a real \<open>x\<close> with \<open>2 ^ e \<le> \<bar>x\<bar> < 2 ^ (e + 1)\<close> is rounded to a multiple of
  \<open>2 ^ (e - 23)\<close> (24 significant bits), and to a multiple of \<open>2 ^ (- 149)\<close> below
  \<open>2 ^ (- 126)\<close> (the subnormal numbers). \<open>exponent x\<close> is this \<open>e\<close>, computed from
  the number of bits of a whole number. A real beyond the largest finite binary32 would
  be rounded to an infinity; here it is rounded as if the exponent had no upper limit.
  Such a value is only ever cast to \<^verbatim>\<open>unsigned long\<close>, and it is out of the range of
  the type either way.
\<close>

definition round_to_even :: "real \<Rightarrow> int" where
  "round_to_even x =
     (let f = \<lfloor>x\<rfloor>; r = x - of_int f
      in if r < 1 / 2 then f else if 1 / 2 < r then f + 1 else if even f then f else f + 1)"

definition exponent :: "real \<Rightarrow> int" where
  "exponent x =
     (if 1 \<le> \<bar>x\<bar> then bitlen \<lfloor>\<bar>x\<bar>\<rfloor> - 1 else - bitlen (\<lceil>1 / \<bar>x\<bar>\<rceil> - 1))"

definition ulp :: "real \<Rightarrow> real" where
  "ulp x = 2 powi (max (exponent x) (- 126) - 23)"

definition binary32 :: "real \<Rightarrow> LADSPA_Data" where
  "binary32 x = (if x = 0 then 0 else of_int (round_to_even (x / ulp x)) * ulp x)"

text \<open>
  The cast \<^verbatim>\<open>(unsigned long)\<close> of a floating-point value truncates towards zero; it
  is undefined when the truncated value is not a value of the type.
\<close>

definition to_ulong :: "LADSPA_Data \<Rightarrow> ulong option" where
  "to_ulong x = (if - 1 < x \<and> x < 2 ^ 64 then Some (of_nat (nat \<lfloor>x\<rfloor>)) else None)"

text \<open>Reading and writing \<^verbatim>\<open>pfBuffer[j]\<close>, inside the allocated array only.\<close>

definition buf_read :: "LADSPA_Data list \<Rightarrow> ulong \<Rightarrow> LADSPA_Data option" where
  "buf_read buf j = (if unat j < length buf then Some (buf ! unat j) else None)"

definition buf_write :: "LADSPA_Data list \<Rightarrow> ulong \<Rightarrow> LADSPA_Data \<Rightarrow> LADSPA_Data list option" where
  "buf_write buf j v = (if unat j < length buf then Some (buf[unat j := v]) else None)"

subsection \<open>The class DelayLine\<close>

record DelayLine =
  m_fSampleRate :: LADSPA_Data
  m_fMaximumDelay :: LADSPA_Data
  m_pfBuffer :: "LADSPA_Data list"
  m_lBufferSize :: ulong
  m_lWritePointer :: ulong

text \<open>
  The loop of the constructor,
  \<^verbatim>\<open>while (m_lBufferSize < lMinimumBufferSize) m_lBufferSize <<= 1;\<close>
  which need not end: not returning is \<open>None\<close>.
\<close>

partial_function (option) grow_buffer_size :: "ulong \<Rightarrow> ulong \<Rightarrow> ulong option" where
  "grow_buffer_size lBufferSize lMinimumBufferSize =
     (if lBufferSize < lMinimumBufferSize
      then grow_buffer_size (push_bit 1 lBufferSize) lMinimumBufferSize
      else Some lBufferSize)"

text \<open>
  \<^verbatim>\<open>new LADSPA_Data[n]\<close> throws \<^verbatim>\<open>std::bad_alloc\<close> (or \<^verbatim>\<open>std::bad_array_new_length\<close>,
  which is derived from it) when \<open>n\<close> samples of 4 bytes are more than the largest
  object, \<open>2 ^ 63 - 1\<close> bytes, or more than the allocation function can give: \<open>avail\<close>
  is the number of samples that it can give. The contents of the new array are
  unspecified: \<open>junk\<close>.
\<close>

datatype cpp_exception = bad_alloc

definition new_array ::
  "nat \<Rightarrow> (nat \<Rightarrow> LADSPA_Data) \<Rightarrow> nat \<Rightarrow> cpp_exception + LADSPA_Data list" where
  "new_array avail junk n =
     (if n < 2 ^ 61 \<and> n \<le> avail then Inr (map junk [0 ..< n]) else Inl bad_alloc)"

text \<open>
  The constructor. \<^verbatim>\<open>LADSPA_Data(lSampleRate)\<close> and the product are rounded to
  binary32. The constructor does not set the write pointer: it is the argument \<open>wp0\<close>.
  The result is \<open>None\<close> when the cast is undefined or the loop does not end,
  \<open>Some (Inl bad_alloc)\<close> when \<^verbatim>\<open>new\<close> throws, and \<open>Some (Inr dl)\<close> for the object \<open>dl\<close>.
\<close>

definition DelayLine_new ::
  "ulong \<Rightarrow> LADSPA_Data \<Rightarrow> nat \<Rightarrow> (nat \<Rightarrow> LADSPA_Data) \<Rightarrow> ulong
     \<Rightarrow> (cpp_exception + DelayLine) option" where
  "DelayLine_new lSampleRate fMaximumDelay avail junk wp0 =
     do {
       let fSampleRate = binary32 (real (unat lSampleRate));
       t \<leftarrow> to_ulong (binary32 (binary32 (real (unat lSampleRate)) * fMaximumDelay));
       lBufferSize \<leftarrow> grow_buffer_size 1 (t + 1);
       Some (case new_array avail junk (unat lBufferSize) of
               Inl e \<Rightarrow> Inl e
             | Inr pfBuffer \<Rightarrow>
                 Inr \<lparr> m_fSampleRate = fSampleRate,
                       m_fMaximumDelay = fMaximumDelay,
                       m_pfBuffer = pfBuffer,
                       m_lBufferSize = lBufferSize,
                       m_lWritePointer = wp0 \<rparr>)
     }"

text \<open>\<^verbatim>\<open>activateDelayLine\<close>: the buffer is zeroed and the write pointer reset.\<close>

definition activateDelayLine :: "DelayLine \<Rightarrow> DelayLine" where
  "activateDelayLine dl =
     dl \<lparr> m_pfBuffer := replicate (unat (m_lBufferSize dl)) 0, m_lWritePointer := 0 \<rparr>"

subsection \<open>The two run functions\<close>

text \<open>
  The per-sample loop of \<^verbatim>\<open>runSimpleDelayLine\<close>, by recursion on the samples of the
  input block that are left; \<open>i\<close> is \<^verbatim>\<open>lSampleIndex\<close>. The result is the buffer and the
  output block.
\<close>

fun simple_loop ::
  "ulong \<Rightarrow> ulong \<Rightarrow> ulong \<Rightarrow> LADSPA_Data \<Rightarrow> LADSPA_Data \<Rightarrow> ulong \<Rightarrow> LADSPA_Data list
     \<Rightarrow> LADSPA_Data list \<Rightarrow> (LADSPA_Data list \<times> LADSPA_Data list) option" where
  "simple_loop msk woff roff fDry fWet i [] buf = Some (buf, [])"
| "simple_loop msk woff roff fDry fWet i (fInputSample # rest) buf =
     do {
       buf1 \<leftarrow> buf_write buf ((i + woff) AND msk) fInputSample;
       d \<leftarrow> buf_read buf1 ((i + roff) AND msk);
       (buf2, out) \<leftarrow> simple_loop msk woff roff fDry fWet (i + 1) rest buf1;
       Some (buf2, (fDry * fInputSample + fWet * d) # out)
     }"

text \<open>
  \<^verbatim>\<open>runSimpleDelayLine\<close>. The two control ports are the arguments \<open>delay\<close> and \<open>wet\<close>,
  the input port is the list \<open>input\<close>, whose length is \<^verbatim>\<open>SampleCount\<close>.
\<close>

definition runSimpleDelayLine ::
  "DelayLine \<Rightarrow> LADSPA_Data \<Rightarrow> LADSPA_Data \<Rightarrow> LADSPA_Data list
     \<Rightarrow> (DelayLine \<times> LADSPA_Data list) option" where
  "runSimpleDelayLine dl delay wet input =
     do {
       let lBufferSizeMinusOne = m_lBufferSize dl - 1;
       lDelay \<leftarrow> to_ulong (binary32 (LIMIT_BETWEEN delay 0 (m_fMaximumDelay dl) * m_fSampleRate dl));
       let lBufferWriteOffset = m_lWritePointer dl;
       let lBufferReadOffset = lBufferWriteOffset + m_lBufferSize dl - lDelay;
       let fWet = LIMIT_BETWEEN wet 0 1;
       let fDry = 1 - fWet;
       (buf, out) \<leftarrow> simple_loop lBufferSizeMinusOne lBufferWriteOffset lBufferReadOffset
                       fDry fWet 0 input (m_pfBuffer dl);
       Some (dl \<lparr> m_pfBuffer := buf,
                  m_lWritePointer :=
                    (m_lWritePointer dl + of_nat (length input)) AND lBufferSizeMinusOne \<rparr>,
             out)
     }"

text \<open>
  The per-sample loop of \<^verbatim>\<open>runFeedbackDelayLine\<close>. \<^verbatim>\<open>fDelayedSample\<close> is a reference
  to the slot of the buffer that is read: the slot is read once for the output and
  once more for the value that is stored, and both reads come before the write.
\<close>

fun feedback_loop ::
  "ulong \<Rightarrow> ulong \<Rightarrow> ulong \<Rightarrow> LADSPA_Data \<Rightarrow> LADSPA_Data \<Rightarrow> LADSPA_Data \<Rightarrow> ulong
     \<Rightarrow> LADSPA_Data list \<Rightarrow> LADSPA_Data list \<Rightarrow> (LADSPA_Data list \<times> LADSPA_Data list) option" where
  "feedback_loop msk woff roff fDry fWet fFeedback i [] buf = Some (buf, [])"
| "feedback_loop msk woff roff fDry fWet fFeedback i (fInputSample # rest) buf =
     do {
       fDelayedSample \<leftarrow> buf_read buf ((i + roff) AND msk);
       let fOutputSample = fDry * fInputSample + fWet * fDelayedSample;
       fDelayedSample' \<leftarrow> buf_read buf ((i + roff) AND msk);
       buf1 \<leftarrow> buf_write buf ((i + woff) AND msk) (fInputSample + fDelayedSample' * fFeedback);
       (buf2, out) \<leftarrow> feedback_loop msk woff roff fDry fWet fFeedback (i + 1) rest buf1;
       Some (buf2, fOutputSample # out)
     }"

text \<open>
  The first statements of \<^verbatim>\<open>runFeedbackDelayLine\<close>: the delay in samples, and 1 in
  place of 0 (\<^verbatim>\<open>if (lDelay == 0) lDelay = 1;\<close>).
\<close>

definition feedback_delay :: "DelayLine \<Rightarrow> LADSPA_Data \<Rightarrow> ulong option" where
  "feedback_delay dl delay =
     do {
       lDelay \<leftarrow> to_ulong (binary32 (LIMIT_BETWEEN delay 0 (m_fMaximumDelay dl) * m_fSampleRate dl));
       Some (if lDelay = 0 then 1 else lDelay)
     }"

definition runFeedbackDelayLine ::
  "DelayLine \<Rightarrow> LADSPA_Data \<Rightarrow> LADSPA_Data \<Rightarrow> LADSPA_Data \<Rightarrow> LADSPA_Data list
     \<Rightarrow> (DelayLine \<times> LADSPA_Data list) option" where
  "runFeedbackDelayLine dl delay wet feedback input =
     do {
       let lBufferSizeMinusOne = m_lBufferSize dl - 1;
       lDelay \<leftarrow> feedback_delay dl delay;
       let lBufferWriteOffset = m_lWritePointer dl;
       let lBufferReadOffset = lBufferWriteOffset + m_lBufferSize dl - lDelay;
       let fWet = LIMIT_BETWEEN wet 0 1;
       let fDry = 1 - fWet;
       let fFeedback = LIMIT_BETWEEN feedback (- 1) 1;
       (buf, out) \<leftarrow> feedback_loop lBufferSizeMinusOne lBufferWriteOffset lBufferReadOffset
                       fDry fWet fFeedback 0 input (m_pfBuffer dl);
       Some (dl \<lparr> m_pfBuffer := buf,
                  m_lWritePointer :=
                    (m_lWritePointer dl + of_nat (length input)) AND lBufferSizeMinusOne \<rparr>,
             out)
     }"

subsection \<open>The host: a sequence of blocks\<close>

text \<open>
  A host calls one run function per block. A block carries the values of the control
  ports and the input samples.
\<close>

datatype block =
  Echo LADSPA_Data LADSPA_Data "LADSPA_Data list"
| Feedback LADSPA_Data LADSPA_Data LADSPA_Data "LADSPA_Data list"

fun block_input :: "block \<Rightarrow> LADSPA_Data list" where
  "block_input (Echo delay wet input) = input"
| "block_input (Feedback delay wet feedback input) = input"

fun run_block :: "DelayLine \<Rightarrow> block \<Rightarrow> (DelayLine \<times> LADSPA_Data list) option" where
  "run_block dl (Echo delay wet input) = runSimpleDelayLine dl delay wet input"
| "run_block dl (Feedback delay wet feedback input) =
     runFeedbackDelayLine dl delay wet feedback input"

text \<open>The blocks in order; the output blocks are put one after the other.\<close>

fun run_blocks :: "DelayLine \<Rightarrow> block list \<Rightarrow> (DelayLine \<times> LADSPA_Data list) option" where
  "run_blocks dl [] = Some (dl, [])"
| "run_blocks dl (b # bs) =
     do {
       (dl1, out1) \<leftarrow> run_block dl b;
       (dl2, out2) \<leftarrow> run_blocks dl1 bs;
       Some (dl2, out1 @ out2)
     }"

subsection \<open>The invariant of the class\<close>

text \<open>
  What the constructor establishes and every operation keeps: the size of the buffer
  is a power of two, the buffer has that many samples, and the longest delay, in
  samples (the cast of the rounded product of the constructor), is less than the size.
\<close>

definition is_power_of_two :: "ulong \<Rightarrow> bool" where
  "is_power_of_two s = (\<exists>k \<in> set [0 ..< 64]. s = 2 ^ k)"

definition valid :: "DelayLine \<Rightarrow> bool" where
  "valid dl \<longleftrightarrow>
     is_power_of_two (m_lBufferSize dl) \<and>
     length (m_pfBuffer dl) = unat (m_lBufferSize dl) \<and>
     0 \<le> m_fSampleRate dl \<and>
     0 \<le> m_fMaximumDelay dl \<and>
     \<lfloor>binary32 (m_fSampleRate dl * m_fMaximumDelay dl)\<rfloor> < uint (m_lBufferSize dl)"

text \<open>Two states of one engine: the fields that no operation changes agree.\<close>

definition same_engine :: "DelayLine \<Rightarrow> DelayLine \<Rightarrow> bool" where
  "same_engine dl dl' \<longleftrightarrow>
     m_fSampleRate dl' = m_fSampleRate dl \<and> m_fMaximumDelay dl' = m_fMaximumDelay dl \<and>
     m_lBufferSize dl' = m_lBufferSize dl"

subsection \<open>The buffer as a window of the input stream\<close>

text \<open>
  The invariant of the plain delay: after the samples \<open>h\<close> (all of them since the
  activation, oldest first), the buffer of \<open>n\<close> samples holds the last \<open>n\<close> samples of
  \<open>n\<close> zeros followed by \<open>h\<close>, the sample of time \<open>j\<close> in slot \<open>j mod n\<close>.
\<close>

definition holds_history :: "nat \<Rightarrow> LADSPA_Data list \<Rightarrow> LADSPA_Data list \<Rightarrow> bool" where
  "holds_history n buf h \<longleftrightarrow>
     length buf = n \<and>
     (\<forall>j \<in> {length h ..< length h + n}. buf ! (j mod n) = (replicate n 0 @ h) ! j)"

subsection \<open>A small engine\<close>

text \<open>An engine of four samples, at two samples per second, for the concrete instances.\<close>

definition dl4 :: DelayLine where
  "dl4 = \<lparr> m_fSampleRate = 2, m_fMaximumDelay = 1, m_pfBuffer = [5, 6, 7, 8],
            m_lBufferSize = 4, m_lWritePointer = 3 \<rparr>"

text \<open>
  An engine of two samples, as the constructor returns it at 100 samples per second
  with a maximum delay of \<^verbatim>\<open>0.01f\<close>, which is \<open>10737418 / 2 ^ 30\<close>: the product is a
  little less than 1 and is rounded to 1.
\<close>

definition dl2 :: DelayLine where
  "dl2 = \<lparr> m_fSampleRate = 100, m_fMaximumDelay = 10737418 / 2 ^ 30, m_pfBuffer = [5, 6],
            m_lBufferSize = 2, m_lWritePointer = 1 \<rparr>"

section \<open>Properties\<close>

subsection \<open>Rounding to binary32\<close>

lemma round_to_even_cases:
  "round_to_even x = \<lfloor>x\<rfloor> \<and> x - of_int \<lfloor>x\<rfloor> \<le> 1 / 2
   \<or> round_to_even x = \<lfloor>x\<rfloor> + 1 \<and> 1 / 2 \<le> x - of_int \<lfloor>x\<rfloor>"
  by (auto simp: round_to_even_def Let_def)

lemma round_to_even_of_int [simp]: "round_to_even (of_int n) = n"
  by (simp add: round_to_even_def)

lemma round_to_even_mono:
  assumes "a \<le> b"
  shows "round_to_even a \<le> round_to_even b"
proof (cases "\<lfloor>a\<rfloor> = \<lfloor>b\<rfloor>")
  case True
  with assms have "a - of_int \<lfloor>a\<rfloor> \<le> b - of_int \<lfloor>b\<rfloor>" by simp
  with True show ?thesis by (auto simp: round_to_even_def Let_def)
next
  case False
  with assms have "\<lfloor>a\<rfloor> + 1 \<le> \<lfloor>b\<rfloor>" using floor_mono [OF assms] by linarith
  moreover have "round_to_even a \<le> \<lfloor>a\<rfloor> + 1" using round_to_even_cases [of a] by auto
  moreover have "\<lfloor>b\<rfloor> \<le> round_to_even b" using round_to_even_cases [of b] by auto
  ultimately show ?thesis by linarith
qed

lemma round_to_even_le: "a \<le> of_int n \<Longrightarrow> round_to_even a \<le> n"
  using round_to_even_mono [of a "of_int n"] by simp

lemma round_to_even_ge: "of_int n \<le> a \<Longrightarrow> n \<le> round_to_even a"
  using round_to_even_mono [of "of_int n" a] by simp

lemma bitlen_pos: "0 < n \<Longrightarrow> 1 \<le> bitlen n"
  by (simp add: bitlen_alt_def)

text \<open>\<open>exponent x\<close> is the exponent of the power of two at or below \<open>x\<close>.\<close>

lemma exponent_bounds:
  assumes "0 < x"
  shows "2 powi exponent x \<le> x" and "x < 2 powi (exponent x + 1)"
proof -
  have "2 powi exponent x \<le> x \<and> x < 2 powi (exponent x + 1)"
  proof (cases "1 \<le> x")
    case True
    let ?n = "\<lfloor>x\<rfloor>"
    from True have n: "0 < ?n" by simp
    from bitlen_pos [OF n] have b: "1 \<le> bitlen ?n" .
    from True assms have e: "exponent x = bitlen ?n - 1" by (simp add: exponent_def)
    from bitlen_bounds [OF n] have lo: "2 ^ nat (bitlen ?n - 1) \<le> ?n"
      and hi: "?n < 2 ^ nat (bitlen ?n)" by simp_all
    from lo have "(of_int (2 ^ nat (bitlen ?n - 1)) :: real) \<le> of_int ?n" by (simp only: of_int_le_iff)
    also have "\<dots> \<le> x" by simp
    finally have 1: "2 powi exponent x \<le> x" using b by (simp add: e power_int_nonneg_exp)
    from hi have "?n + 1 \<le> 2 ^ nat (bitlen ?n)" by simp
    then have "(of_int (?n + 1) :: real) \<le> of_int (2 ^ nat (bitlen ?n))" by (simp only: of_int_le_iff)
    moreover have "x < of_int (?n + 1)" by simp
    ultimately have "x < of_int (2 ^ nat (bitlen ?n))" by linarith
    then have 2: "x < 2 powi (exponent x + 1)" using b by (simp add: e power_int_nonneg_exp)
    from 1 2 show ?thesis ..
  next
    case False
    let ?y = "1 / x"
    let ?m = "\<lceil>?y\<rceil> - 1"
    from False assms have y: "1 < ?y" by simp
    then have m: "0 < ?m" by (simp add: less_ceiling_iff)
    from bitlen_pos [OF m] have b: "1 \<le> bitlen ?m" .
    from False assms have e: "exponent x = - bitlen ?m" by (simp add: exponent_def)
    from bitlen_bounds [OF m] have lo: "2 ^ nat (bitlen ?m - 1) \<le> ?m"
      and hi: "?m < 2 ^ nat (bitlen ?m)" by simp_all
    from hi have "\<lceil>?y\<rceil> \<le> 2 ^ nat (bitlen ?m)" by simp
    then have "(of_int \<lceil>?y\<rceil> :: real) \<le> of_int (2 ^ nat (bitlen ?m))" by (simp only: of_int_le_iff)
    moreover have "?y \<le> of_int \<lceil>?y\<rceil>" by (rule le_of_int_ceiling)
    ultimately have "?y \<le> of_int (2 ^ nat (bitlen ?m))" by linarith
    then have "?y \<le> 2 ^ nat (bitlen ?m)" by simp
    with assms have "1 / 2 ^ nat (bitlen ?m) \<le> x"
      by (simp add: field_simps)
    then have 1: "2 powi exponent x \<le> x"
      using b by (simp add: e power_int_def inverse_eq_divide power_one_over)
    from lo have "(of_int (2 ^ nat (bitlen ?m - 1)) :: real) \<le> of_int ?m" by (simp only: of_int_le_iff)
    moreover have "of_int ?m < ?y" using ceiling_correct [of ?y] by simp
    ultimately have "of_int (2 ^ nat (bitlen ?m - 1)) < ?y" by linarith
    then have "2 ^ nat (bitlen ?m - 1) < ?y" by simp
    with assms have "x < 1 / 2 ^ nat (bitlen ?m - 1)" by (simp add: field_simps)
    moreover have "2 powi (exponent x + 1) = (1 :: real) / 2 ^ nat (bitlen ?m - 1)"
    proof (cases "bitlen ?m = 1")
      case True
      then show ?thesis by (simp add: e)
    next
      case False
      with b have "exponent x + 1 < 0" "nat (- (exponent x + 1)) = nat (bitlen ?m - 1)"
        by (simp_all add: e)
      then show ?thesis by (simp add: power_int_def inverse_eq_divide power_one_over)
    qed
    ultimately have 2: "x < 2 powi (exponent x + 1)" by simp
    from 1 2 show ?thesis ..
  qed
  then show "2 powi exponent x \<le> x" and "x < 2 powi (exponent x + 1)" by simp_all
qed

lemma exponent_mono:
  assumes "0 < x" and "x \<le> y"
  shows "exponent x \<le> exponent y"
proof (rule ccontr)
  assume "\<not> exponent x \<le> exponent y"
  then have "exponent y + 1 \<le> exponent x" by simp
  then have "(2::real) powi (exponent y + 1) \<le> 2 powi exponent x"
    by (intro power_int_increasing) simp_all
  also from assms(1) have "\<dots> \<le> x" by (rule exponent_bounds)
  finally have "2 powi (exponent y + 1) \<le> y" using assms(2) by simp
  moreover from assms have "y < 2 powi (exponent y + 1)" by (intro exponent_bounds) simp
  ultimately show False by simp
qed

lemma ulp_pos: "0 < ulp x"
  by (simp add: ulp_def)

lemma binary32_nonneg: "0 \<le> x \<Longrightarrow> 0 \<le> binary32 x"
proof -
  assume "0 \<le> x"
  then have "of_int 0 \<le> x / ulp x" using ulp_pos [of x] by simp
  then have "0 \<le> round_to_even (x / ulp x)" by (rule round_to_even_ge)
  then show ?thesis using ulp_pos [of x] by (simp add: binary32_def)
qed

text \<open>A rounded value stays between the two powers of two around the exact one.\<close>

lemma binary32_upper:
  assumes "0 < x"
  shows "binary32 x \<le> 2 powi (max (exponent x) (- 126) + 1)"
proof -
  let ?e = "max (exponent x) (- 126)"
  have u: "ulp x = 2 powi (?e - 23)" by (simp add: ulp_def)
  have split: "(2::real) powi (?e + 1) = of_int (2 ^ 24) * 2 powi (?e - 23)"
    using power_int_add [of "2::real" 24 "?e - 23"] by (simp add: add.commute)
  from assms have "x < 2 powi (exponent x + 1)" by (rule exponent_bounds)
  also have "\<dots> \<le> 2 powi (?e + 1)" by (intro power_int_increasing) simp_all
  finally have "x \<le> of_int (2 ^ 24) * ulp x" by (simp only: split u)
  then have "x / ulp x \<le> of_int (2 ^ 24)" using ulp_pos [of x] by (simp add: field_simps)
  then have "round_to_even (x / ulp x) \<le> 2 ^ 24" by (rule round_to_even_le)
  then have "(of_int (round_to_even (x / ulp x)) :: real) \<le> of_int (2 ^ 24)"
    by (simp only: of_int_le_iff)
  then have "of_int (round_to_even (x / ulp x)) * ulp x \<le> of_int (2 ^ 24) * ulp x"
    using ulp_pos [of x] by (intro mult_right_mono) simp_all
  with assms show ?thesis by (simp only: split u binary32_def) simp
qed

lemma binary32_lower:
  assumes "0 < x" and "- 126 \<le> exponent x"
  shows "2 powi exponent x \<le> binary32 x"
proof -
  let ?e = "exponent x"
  from assms(2) have u: "ulp x = 2 powi (?e - 23)" by (simp add: ulp_def max_def)
  have split: "(2::real) powi ?e = of_int (2 ^ 23) * 2 powi (?e - 23)"
    using power_int_add [of "2::real" 23 "?e - 23"] by (simp add: add.commute)
  from assms(1) have "2 powi ?e \<le> x" by (rule exponent_bounds)
  then have "of_int (2 ^ 23) * ulp x \<le> x" by (simp only: split u)
  then have "of_int (2 ^ 23) \<le> x / ulp x" using ulp_pos [of x] by (simp add: field_simps)
  then have "2 ^ 23 \<le> round_to_even (x / ulp x)" by (rule round_to_even_ge)
  then have "(of_int (2 ^ 23) :: real) \<le> of_int (round_to_even (x / ulp x))"
    by (simp only: of_int_le_iff)
  then have "of_int (2 ^ 23) * ulp x \<le> of_int (round_to_even (x / ulp x)) * ulp x"
    using ulp_pos [of x] by (intro mult_right_mono) simp_all
  with assms(1) show ?thesis by (simp only: split u binary32_def) simp
qed

text \<open>Rounding is monotone.\<close>

lemma binary32_mono:
  assumes "0 \<le> x" and "x \<le> y"
  shows "binary32 x \<le> binary32 y"
proof (cases "x = 0")
  case True
  with assms binary32_nonneg [of y] show ?thesis by (simp add: binary32_def)
next
  case False
  with assms have x: "0 < x" and y: "0 < y" by simp_all
  let ?ex = "max (exponent x) (- 126)" and ?ey = "max (exponent y) (- 126)"
  from exponent_mono [OF x assms(2)] have le: "?ex \<le> ?ey" by simp
  show ?thesis
  proof (cases "?ex = ?ey")
    case True
    then have u: "ulp x = ulp y" by (simp add: ulp_def)
    from assms(2) have "x / ulp y \<le> y / ulp y" using ulp_pos [of y] by (simp add: divide_right_mono)
    then have "round_to_even (x / ulp y) \<le> round_to_even (y / ulp y)" by (rule round_to_even_mono)
    then have "(of_int (round_to_even (x / ulp y)) :: real) \<le> of_int (round_to_even (y / ulp y))"
      by (simp only: of_int_le_iff)
    then have "of_int (round_to_even (x / ulp y)) * ulp y \<le> of_int (round_to_even (y / ulp y)) * ulp y"
      using ulp_pos [of y] by (intro mult_right_mono) simp_all
    with x y u show ?thesis by (simp add: binary32_def)
  next
    case False
    with le have lt: "?ex + 1 \<le> ?ey" by simp
    then have ey: "?ey = exponent y" "- 126 \<le> exponent y" by (simp_all add: max_def split: if_splits)
    from x have "binary32 x \<le> 2 powi (?ex + 1)" by (rule binary32_upper)
    also from lt have "\<dots> \<le> 2 powi ?ey" by (intro power_int_increasing) simp_all
    also have "\<dots> = 2 powi exponent y" by (simp only: ey(1))
    also from y ey(2) have "\<dots> \<le> binary32 y" by (rule binary32_lower)
    finally show ?thesis .
  qed
qed

lemma binary32_0 [simp]: "binary32 0 = 0"
  by (simp add: binary32_def)

text \<open>Some values, by evaluation.\<close>

lemma binary32_values:
  "binary32 (1 / 2) = 1 / 2" "binary32 1 = 1" "binary32 (3 / 2) = 3 / 2" "binary32 2 = 2"
  "binary32 3 = 3" "binary32 100 = 100" "binary32 44100 = 44100"
  "binary32 2305843009213693952 = 2305843009213693952"
  "binary32 9223372036854775808 = 9223372036854775808"
  "binary32 9223372036854775807 = 9223372036854775808"
  by code_simp+

lemma binary32_ge_1: "1 \<le> x \<Longrightarrow> 1 \<le> binary32 x"
  using binary32_mono [of 1 x] by (simp add: binary32_values)

subsection \<open>Index arithmetic\<close>

lemma pow2_lt_word_size: "k < 64 \<Longrightarrow> (2::nat) ^ k < 2 ^ 64"
  by (rule power_strict_increasing) simp_all

lemma unat_pow2: "k < 64 \<Longrightarrow> unat ((2::ulong) ^ k) = 2 ^ k"
proof -
  assume k: "k < 64"
  have "(2::ulong) ^ k = of_nat (2 ^ k)" by simp
  then have "unat ((2::ulong) ^ k) = 2 ^ k mod 2 ^ 64"
    by (simp only: unat_of_nat) simp
  with pow2_lt_word_size [OF k] show ?thesis by simp
qed

lemma unat_wrap: "unat ((x::ulong) AND (2 ^ k - 1)) = unat x mod 2 ^ k"
proof -
  have "x AND (2 ^ k - 1) = take_bit k x"
    by (simp add: take_bit_eq_mask mask_eq_exp_minus_1)
  then have "unat (x AND (2 ^ k - 1)) = take_bit k (unat x)"
    by (simp only: unsigned_take_bit_eq)
  then show ?thesis by (simp add: take_bit_eq_mod)
qed

lemma of_nat_wrap: "k < 64 \<Longrightarrow> unat ((of_nat N :: ulong) AND (2 ^ k - 1)) = N mod 2 ^ k"
proof -
  assume k: "k < 64"
  have "(2::nat) ^ k dvd 2 ^ 64" by (rule le_imp_power_dvd) (use k in simp)
  then have "N mod 2 ^ 64 mod 2 ^ k = N mod 2 ^ k" by (rule mod_mod_cancel)
  then show ?thesis by (simp add: unat_wrap unat_of_nat)
qed

subsection \<open>Clamping and conversion\<close>

lemma is_power_of_twoD: "is_power_of_two s \<Longrightarrow> \<exists>k<64. s = 2 ^ k"
  by (auto simp: is_power_of_two_def)

lemma LIMIT_BETWEEN_range: "a \<le> b \<Longrightarrow> a \<le> LIMIT_BETWEEN x a b \<and> LIMIT_BETWEEN x a b \<le> b"
  by (simp add: LIMIT_BETWEEN_def)

lemma to_ulong_nonneg:
  assumes "0 \<le> x" and "\<lfloor>x\<rfloor> < 2 ^ 64"
  shows "to_ulong x = Some (of_nat (nat \<lfloor>x\<rfloor>))" and "unat (of_nat (nat \<lfloor>x\<rfloor>) :: ulong) = nat \<lfloor>x\<rfloor>"
proof -
  from assms(2) have "x < 2 ^ 64" by (simp add: floor_less_iff)
  with assms(1) show "to_ulong x = Some (of_nat (nat \<lfloor>x\<rfloor>))"
    by (simp add: to_ulong_def)
  from assms have "nat \<lfloor>x\<rfloor> < 2 ^ 64" by (simp add: nat_less_iff)
  then show "unat (of_nat (nat \<lfloor>x\<rfloor>) :: ulong) = nat \<lfloor>x\<rfloor>"
    by (simp add: unat_of_nat)
qed

lemma delay_samples:
  fixes dl :: DelayLine and delay :: LADSPA_Data
  assumes "valid dl"
  defines "x \<equiv> binary32 (LIMIT_BETWEEN delay 0 (m_fMaximumDelay dl) * m_fSampleRate dl)"
  shows "to_ulong x = Some (of_nat (nat \<lfloor>x\<rfloor>))"
    and "unat (of_nat (nat \<lfloor>x\<rfloor>) :: ulong) = nat \<lfloor>x\<rfloor>"
    and "nat \<lfloor>x\<rfloor> < unat (m_lBufferSize dl)"
proof -
  let ?p = "LIMIT_BETWEEN delay 0 (m_fMaximumDelay dl) * m_fSampleRate dl"
  from assms(1) have mx: "0 \<le> m_fMaximumDelay dl" and sr: "0 \<le> m_fSampleRate dl"
    and fl: "\<lfloor>binary32 (m_fSampleRate dl * m_fMaximumDelay dl)\<rfloor> < uint (m_lBufferSize dl)"
    by (simp_all add: valid_def)
  from LIMIT_BETWEEN_range [OF mx, of delay]
  have c: "0 \<le> LIMIT_BETWEEN delay 0 (m_fMaximumDelay dl)"
    "LIMIT_BETWEEN delay 0 (m_fMaximumDelay dl) \<le> m_fMaximumDelay dl" by simp_all
  from c(1) sr have p0: "0 \<le> ?p" by simp
  then have x0: "0 \<le> x" unfolding x_def by (rule binary32_nonneg)
  from mult_right_mono [OF c(2) sr] have "?p \<le> m_fSampleRate dl * m_fMaximumDelay dl"
    by (simp only: mult.commute [of "m_fSampleRate dl"])
  with p0 have "x \<le> binary32 (m_fSampleRate dl * m_fMaximumDelay dl)"
    unfolding x_def by (rule binary32_mono)
  then have "\<lfloor>x\<rfloor> \<le> \<lfloor>binary32 (m_fSampleRate dl * m_fMaximumDelay dl)\<rfloor>" by (rule floor_mono)
  with fl have lt: "\<lfloor>x\<rfloor> < uint (m_lBufferSize dl)" by simp
  have "uint (m_lBufferSize dl) < 2 ^ 64" using uint_lt2p [of "m_lBufferSize dl"] by simp
  with lt have "\<lfloor>x\<rfloor> < 2 ^ 64" by (rule less_trans)
  from to_ulong_nonneg [OF x0 this]
  show "to_ulong x = Some (of_nat (nat \<lfloor>x\<rfloor>))"
    and "unat (of_nat (nat \<lfloor>x\<rfloor>) :: ulong) = nat \<lfloor>x\<rfloor>" by simp_all
  from lt x0 show "nat \<lfloor>x\<rfloor> < unat (m_lBufferSize dl)"
    by (simp add: nat_less_iff)
qed

subsection \<open>The loops return\<close>

lemma buf_write_wrap:
  "k < 64 \<Longrightarrow> length buf = 2 ^ k \<Longrightarrow>
   buf_write buf (x AND (2 ^ k - 1)) v = Some (buf[unat x mod 2 ^ k := v])"
  by (simp add: buf_write_def unat_wrap)

lemma buf_read_wrap:
  "k < 64 \<Longrightarrow> length buf = 2 ^ k \<Longrightarrow>
   buf_read buf (x AND (2 ^ k - 1)) = Some (buf ! (unat x mod 2 ^ k))"
  by (simp add: buf_read_def unat_wrap)

lemma simple_loop_Some:
  "k < 64 \<Longrightarrow> length buf = 2 ^ k \<Longrightarrow>
   \<exists>buf' out. simple_loop (2 ^ k - 1) woff roff fDry fWet i xs buf = Some (buf', out)
     \<and> length buf' = 2 ^ k \<and> length out = length xs"
proof (induction xs arbitrary: i buf)
  case Nil
  then show ?case by simp
next
  case (Cons x xs)
  let ?buf1 = "buf[unat (i + woff) mod 2 ^ k := x]"
  from Cons.prems have len1: "length ?buf1 = 2 ^ k" by simp
  from Cons.IH [OF Cons.prems(1) len1, of "i + 1"]
  obtain buf' out where
    "simple_loop (2 ^ k - 1) woff roff fDry fWet (i + 1) xs ?buf1 = Some (buf', out)"
    "length buf' = 2 ^ k" "length out = length xs" by blast
  with Cons.prems len1 show ?case
    by (simp add: buf_write_wrap buf_read_wrap)
qed

lemma feedback_loop_Some:
  "k < 64 \<Longrightarrow> length buf = 2 ^ k \<Longrightarrow>
   \<exists>buf' out. feedback_loop (2 ^ k - 1) woff roff fDry fWet fFeedback i xs buf = Some (buf', out)
     \<and> length buf' = 2 ^ k \<and> length out = length xs"
proof (induction xs arbitrary: i buf)
  case Nil
  then show ?case by simp
next
  case (Cons x xs)
  let ?d = "buf ! (unat (i + roff) mod 2 ^ k)"
  let ?buf1 = "buf[unat (i + woff) mod 2 ^ k := x + ?d * fFeedback]"
  from Cons.prems have len1: "length ?buf1 = 2 ^ k" by simp
  from Cons.IH [OF Cons.prems(1) len1, of "i + 1"]
  obtain buf' out where
    "feedback_loop (2 ^ k - 1) woff roff fDry fWet fFeedback (i + 1) xs ?buf1 = Some (buf', out)"
    "length buf' = 2 ^ k" "length out = length xs" by blast
  with Cons.prems len1 show ?case
    by (simp add: buf_write_wrap buf_read_wrap)
qed

subsection \<open>The run functions return and keep the invariant\<close>

lemma cursor_advance:
  "k < 64 \<Longrightarrow> unat ((wp + of_nat n) AND (2 ^ k - 1) :: ulong) = (unat wp + n) mod 2 ^ k"
proof -
  assume k: "k < 64"
  have "wp + of_nat n = (of_nat (unat wp + n) :: ulong)" by simp
  then show ?thesis using of_nat_wrap [OF k, of "unat wp + n"] by simp
qed

lemma validD:
  assumes "valid dl"
  obtains k where "k < 64" "m_lBufferSize dl = 2 ^ k" "unat (m_lBufferSize dl) = 2 ^ k"
    "length (m_pfBuffer dl) = 2 ^ k"
proof -
  from assms have "is_power_of_two (m_lBufferSize dl)" by (simp add: valid_def)
  then obtain k where k: "k < 64" "m_lBufferSize dl = 2 ^ k" by (auto dest: is_power_of_twoD)
  then have "unat (m_lBufferSize dl) = 2 ^ k" by (simp add: unat_pow2)
  moreover from assms have "length (m_pfBuffer dl) = unat (m_lBufferSize dl)"
    by (simp add: valid_def)
  ultimately show thesis using k that by simp
qed

lemma runSimpleDelayLine_Some:
  assumes "valid dl"
  shows "\<exists>dl' out. runSimpleDelayLine dl delay wet input = Some (dl', out)
          \<and> valid dl' \<and> same_engine dl dl' \<and> length out = length input
          \<and> m_lWritePointer dl' =
              (m_lWritePointer dl + of_nat (length input)) AND (m_lBufferSize dl - 1)"
proof -
  from assms obtain k where k: "k < 64" "m_lBufferSize dl = 2 ^ k"
    "unat (m_lBufferSize dl) = 2 ^ k" "length (m_pfBuffer dl) = 2 ^ k" by (rule validD)
  let ?D = "of_nat (nat \<lfloor>binary32 (LIMIT_BETWEEN delay 0 (m_fMaximumDelay dl) * m_fSampleRate dl)\<rfloor>) :: ulong"
  from simple_loop_Some [OF k(1) k(4)]
  obtain buf out where loop:
    "simple_loop (2 ^ k - 1) (m_lWritePointer dl) (m_lWritePointer dl + 2 ^ k - ?D)
       (1 - LIMIT_BETWEEN wet 0 1) (LIMIT_BETWEEN wet 0 1) 0 input (m_pfBuffer dl) = Some (buf, out)"
    and len: "length buf = 2 ^ k" "length out = length input" by blast
  let ?dl' = "dl \<lparr> m_pfBuffer := buf,
                   m_lWritePointer := (m_lWritePointer dl + of_nat (length input))
                                        AND (m_lBufferSize dl - 1) \<rparr>"
  from loop have "runSimpleDelayLine dl delay wet input = Some (?dl', out)"
    by (simp add: runSimpleDelayLine_def delay_samples(1) [OF assms] k(2))
  moreover from assms len k(3) have "valid ?dl'" by (simp add: valid_def)
  moreover have "same_engine dl ?dl'" by (simp add: same_engine_def)
  ultimately show ?thesis using len(2) by simp
qed

lemma feedback_delay_Some:
  assumes "valid dl"
  shows "\<exists>D. feedback_delay dl delay = Some D"
  by (simp add: feedback_delay_def delay_samples(1) [OF assms])

lemma runFeedbackDelayLine_Some:
  assumes "valid dl"
  shows "\<exists>dl' out. runFeedbackDelayLine dl delay wet feedback input = Some (dl', out)
          \<and> valid dl' \<and> same_engine dl dl' \<and> length out = length input
          \<and> m_lWritePointer dl' =
              (m_lWritePointer dl + of_nat (length input)) AND (m_lBufferSize dl - 1)"
proof -
  from assms obtain k where k: "k < 64" "m_lBufferSize dl = 2 ^ k"
    "unat (m_lBufferSize dl) = 2 ^ k" "length (m_pfBuffer dl) = 2 ^ k" by (rule validD)
  from feedback_delay_Some [OF assms] obtain D where D: "feedback_delay dl delay = Some D" ..
  from feedback_loop_Some [OF k(1) k(4)]
  obtain buf out where loop:
    "feedback_loop (2 ^ k - 1) (m_lWritePointer dl) (m_lWritePointer dl + 2 ^ k - D)
       (1 - LIMIT_BETWEEN wet 0 1) (LIMIT_BETWEEN wet 0 1) (LIMIT_BETWEEN feedback (- 1) 1)
       0 input (m_pfBuffer dl) = Some (buf, out)"
    and len: "length buf = 2 ^ k" "length out = length input" by blast
  let ?dl' = "dl \<lparr> m_pfBuffer := buf,
                   m_lWritePointer := (m_lWritePointer dl + of_nat (length input))
                                        AND (m_lBufferSize dl - 1) \<rparr>"
  from loop have "runFeedbackDelayLine dl delay wet feedback input = Some (?dl', out)"
    by (simp add: runFeedbackDelayLine_def D k(2))
  moreover from assms len k(3) have "valid ?dl'" by (simp add: valid_def)
  moreover have "same_engine dl ?dl'" by (simp add: same_engine_def)
  ultimately show ?thesis using len(2) by simp
qed

lemma run_block_Some:
  assumes "valid dl"
  shows "\<exists>dl' out. run_block dl b = Some (dl', out)
          \<and> valid dl' \<and> same_engine dl dl' \<and> length out = length (block_input b)
          \<and> m_lWritePointer dl' =
              (m_lWritePointer dl + of_nat (length (block_input b))) AND (m_lBufferSize dl - 1)"
proof (cases b)
  case (Echo delay wet input)
  with runSimpleDelayLine_Some [OF assms, of delay wet input] show ?thesis by simp
next
  case (Feedback delay wet feedback input)
  with runFeedbackDelayLine_Some [OF assms, of delay wet feedback input] show ?thesis by simp
qed

lemma run_blocks_Some:
  assumes "valid dl"
  shows "\<exists>dl' out. run_blocks dl bs = Some (dl', out)
          \<and> valid dl' \<and> same_engine dl dl'
          \<and> length out = sum_list (map (\<lambda>b. length (block_input b)) bs)
          \<and> unat (m_lWritePointer dl') =
              (if bs = [] then unat (m_lWritePointer dl)
               else (unat (m_lWritePointer dl) + sum_list (map (\<lambda>b. length (block_input b)) bs))
                      mod unat (m_lBufferSize dl))"
  using assms
proof (induction bs arbitrary: dl)
  case Nil
  then show ?case by (simp add: same_engine_def)
next
  case (Cons b bs)
  from run_block_Some [OF Cons.prems, of b] obtain dl1 out1 where
    1: "run_block dl b = Some (dl1, out1)" "valid dl1" "same_engine dl dl1"
       "length out1 = length (block_input b)"
       "m_lWritePointer dl1 =
          (m_lWritePointer dl + of_nat (length (block_input b))) AND (m_lBufferSize dl - 1)"
    by blast
  from Cons.prems obtain k where k: "k < 64" "m_lBufferSize dl = 2 ^ k"
    "unat (m_lBufferSize dl) = 2 ^ k" by (rule validD)
  from 1(5) k have wp1: "unat (m_lWritePointer dl1) =
      (unat (m_lWritePointer dl) + length (block_input b)) mod 2 ^ k"
    by (simp add: cursor_advance)
  from Cons.IH [OF 1(2)] obtain dl2 out2 where
    2: "run_blocks dl1 bs = Some (dl2, out2)" "valid dl2" "same_engine dl1 dl2"
       "length out2 = sum_list (map (\<lambda>b. length (block_input b)) bs)"
       "unat (m_lWritePointer dl2) =
              (if bs = [] then unat (m_lWritePointer dl1)
               else (unat (m_lWritePointer dl1) + sum_list (map (\<lambda>b. length (block_input b)) bs))
                      mod unat (m_lBufferSize dl1))"
    by blast
  from 1(3) 2(3) have same: "same_engine dl dl2" by (simp add: same_engine_def)
  from 1(3) k have sz1: "unat (m_lBufferSize dl1) = 2 ^ k" by (simp add: same_engine_def)
  have "unat (m_lWritePointer dl2) =
      (unat (m_lWritePointer dl) + (length (block_input b) + sum_list (map (\<lambda>b. length (block_input b)) bs)))
        mod 2 ^ k"
    using 2(5) wp1 sz1 by (simp add: mod_add_left_eq add.assoc)
  with 1 2 same k show ?case by simp
qed

subsection \<open>The loop of the constructor\<close>

lemma grow_zero: "0 < m \<Longrightarrow> grow_buffer_size 0 m = None"
proof (rule ccontr)
  assume m: "0 < m" and "grow_buffer_size 0 m \<noteq> None"
  then obtain r where r: "grow_buffer_size 0 m = Some r" by auto
  have "\<not> (s = 0 \<and> 0 < n)" if "grow_buffer_size s n = Some q" for s n q
    by (rule grow_buffer_size.raw_induct [where P = "\<lambda>s n q. \<not> (s = 0 \<and> 0 < n)", OF _ that])
       (auto split: if_splits)
  from this [OF r] m show False by simp
qed

lemma grow_step: "s < m \<Longrightarrow> grow_buffer_size s m = grow_buffer_size (2 * s) m"
  by (subst grow_buffer_size.simps) (simp add: push_bit_eq_mult mult.commute)

lemma grow_stop: "\<not> s < m \<Longrightarrow> grow_buffer_size s m = Some s"
  by (subst grow_buffer_size.simps) simp

lemma pow2_less_word: "j < 64 \<Longrightarrow> ((2::ulong) ^ j < m) = (2 ^ j < unat m)"
  by (simp add: word_less_nat_alt unat_pow2)

lemma grow_pow2:
  assumes "unat m \<le> 2 ^ 63" and "j \<le> 63" and "j = 0 \<or> 2 ^ (j - 1) < unat m"
  shows "\<exists>k. j \<le> k \<and> k \<le> 63 \<and> grow_buffer_size (2 ^ j) m = Some (2 ^ k)
           \<and> unat m \<le> 2 ^ k \<and> (k = 0 \<or> 2 ^ (k - 1) < unat m)"
  using assms(2,3)
proof (induction "63 - j" arbitrary: j)
  case 0
  then have j: "j = 63" by simp
  have "((2::ulong) ^ 63 < m) = (2 ^ 63 < unat m)" by (rule pow2_less_word) simp
  with assms(1) j have "\<not> (2::ulong) ^ j < m" by simp
  then have "grow_buffer_size (2 ^ j) m = Some (2 ^ j)" by (rule grow_stop)
  with j assms(1) "0.prems" show ?case by auto
next
  case (Suc d)
  then have j: "j < 63" by simp
  show ?case
  proof (cases "(2::ulong) ^ j < m")
    case False
    then have "grow_buffer_size (2 ^ j) m = Some (2 ^ j)" by (rule grow_stop)
    moreover from False j have "unat m \<le> 2 ^ j" by (simp add: pow2_less_word)
    ultimately show ?thesis using Suc.prems by auto
  next
    case True
    with j have lt: "2 ^ j < unat m" by (simp add: pow2_less_word)
    from True have "grow_buffer_size (2 ^ j) m = grow_buffer_size (2 ^ Suc j) m"
      by (simp add: grow_step)
    moreover from Suc.hyps(2) j have "d = 63 - Suc j" by simp
    from Suc.hyps(1) [OF this] j lt
    obtain k where "Suc j \<le> k" "k \<le> 63" "grow_buffer_size (2 ^ Suc j) m = Some (2 ^ k)"
      "unat m \<le> 2 ^ k" "k = 0 \<or> 2 ^ (k - 1) < unat m" by auto
    ultimately show ?thesis by (intro exI [of _ k]) simp
  qed
qed

lemma grow_diverges:
  assumes "2 ^ 63 < unat m" and "j \<le> 63"
  shows "grow_buffer_size (2 ^ j) m = None"
  using assms(2)
proof (induction "63 - j" arbitrary: j)
  case 0
  then have j: "j = 63" by simp
  have "((2::ulong) ^ 63 < m) = (2 ^ 63 < unat m)" by (rule pow2_less_word) simp
  with assms(1) j have "(2::ulong) ^ j < m" by simp
  then have "grow_buffer_size (2 ^ j) m = grow_buffer_size (2 * 2 ^ j) m" by (rule grow_step)
  also have "(2::ulong) * 2 ^ j = 0" using j by simp
  also have "grow_buffer_size 0 m = None"
    using assms(1) by (intro grow_zero) (simp add: word_less_nat_alt)
  finally show ?case .
next
  case (Suc d)
  then have j: "j < 63" by simp
  then have "(2::nat) ^ j < 2 ^ 63" by (intro power_strict_increasing) simp_all
  with assms(1) j have "(2::ulong) ^ j < m" by (simp add: pow2_less_word)
  then have "grow_buffer_size (2 ^ j) m = grow_buffer_size (2 ^ Suc j) m"
    by (simp add: grow_step)
  moreover from Suc.hyps(2) j have "d = 63 - Suc j" by simp
  from Suc.hyps(1) [OF this] j have "grow_buffer_size (2 ^ Suc j) m = None" by simp
  ultimately show ?case by simp
qed

lemma nat_Suc_le_pow2: "0 \<le> F \<Longrightarrow> nat F + 1 \<le> 2 ^ k \<Longrightarrow> F < 2 ^ k"
proof -
  assume F0: "0 \<le> F" and "nat F + 1 \<le> 2 ^ k"
  then have "int (nat F + 1) \<le> int (2 ^ k)" by (simp only: of_nat_le_iff)
  with F0 show ?thesis by simp
qed

lemma pow2_less_nat_Suc: "0 \<le> F \<Longrightarrow> 2 ^ j < nat F + 1 \<Longrightarrow> 2 ^ j \<le> F"
proof -
  assume F0: "0 \<le> F" and "2 ^ j < nat F + 1"
  then have "int (2 ^ j) < int (nat F + 1)" by (simp only: of_nat_less_iff)
  with F0 show ?thesis by simp
qed

lemma unat_plus_1: "unat (t :: ulong) < 2 ^ 63 \<Longrightarrow> unat (t + 1) = unat t + 1"
proof -
  assume a: "unat t < 2 ^ 63"
  have "unat (t + 1) = (unat t + 1) mod 2 ^ 64" by (simp add: unat_word_ariths)
  also from a have "unat t + 1 < 2 ^ 64" by simp
  then have "(unat t + 1) mod 2 ^ 64 = unat t + 1" by (rule mod_less)
  finally show ?thesis .
qed

lemma DelayLine_new_Some:
  fixes lSampleRate :: ulong and fMaximumDelay :: LADSPA_Data
  defines "F \<equiv> \<lfloor>binary32 (binary32 (real (unat lSampleRate)) * fMaximumDelay)\<rfloor>"
  assumes mx: "0 \<le> fMaximumDelay" and F: "F < 2 ^ 63"
  shows "\<exists>k\<le>63. DelayLine_new lSampleRate fMaximumDelay avail junk wp0 =
           Some (if (2::nat) ^ k < 2 ^ 61 \<and> 2 ^ k \<le> avail
                 then Inr \<lparr> m_fSampleRate = binary32 (real (unat lSampleRate)),
                            m_fMaximumDelay = fMaximumDelay,
                            m_pfBuffer = map junk [0 ..< 2 ^ k], m_lBufferSize = 2 ^ k,
                            m_lWritePointer = wp0 \<rparr>
                 else Inl bad_alloc)
         \<and> F < 2 ^ k \<and> (k = 0 \<or> 2 ^ (k - 1) \<le> F)"
proof -
  let ?x = "binary32 (binary32 (real (unat lSampleRate)) * fMaximumDelay)"
  let ?t = "of_nat (nat F) :: ulong"
  have "0 \<le> binary32 (real (unat lSampleRate))"
    by (rule binary32_nonneg) (rule of_nat_0_le_iff)
  then have "0 \<le> binary32 (real (unat lSampleRate)) * fMaximumDelay"
    using mx by (rule mult_nonneg_nonneg)
  then have x0: "0 \<le> ?x" by (rule binary32_nonneg)
  then have F0: "0 \<le> F" by (simp add: F_def)
  have "(2::int) ^ 63 < 2 ^ 64" by simp
  with F have "F < 2 ^ 64" by (rule less_trans)
  from to_ulong_nonneg [OF x0 this [unfolded F_def]]
  have t: "to_ulong ?x = Some ?t" "unat ?t = nat F" by (simp_all only: F_def)
  from F F0 have nF: "nat F < 2 ^ 63" by (simp only: nat_less_iff) simp
  with t(2) have "unat ?t < 2 ^ 63" by simp
  from unat_plus_1 [OF this] t(2) have t1: "unat (?t + 1) = nat F + 1" by simp
  with nF have le: "unat (?t + 1) \<le> 2 ^ 63" by simp
  from grow_pow2 [OF le, of 0] obtain k where k: "k \<le> 63"
    "grow_buffer_size 1 (?t + 1) = Some (2 ^ k)" "unat (?t + 1) \<le> 2 ^ k"
    "k = 0 \<or> 2 ^ (k - 1) < unat (?t + 1)" by auto
  from k(1) have "unat ((2::ulong) ^ k) = 2 ^ k" by (simp add: unat_pow2)
  with t(1) k(2) have "DelayLine_new lSampleRate fMaximumDelay avail junk wp0 =
           Some (if (2::nat) ^ k < 2 ^ 61 \<and> 2 ^ k \<le> avail
                 then Inr \<lparr> m_fSampleRate = binary32 (real (unat lSampleRate)),
                            m_fMaximumDelay = fMaximumDelay,
                            m_pfBuffer = map junk [0 ..< 2 ^ k], m_lBufferSize = 2 ^ k,
                            m_lWritePointer = wp0 \<rparr>
                 else Inl bad_alloc)"
    by (simp add: DelayLine_new_def new_array_def Let_def)
  moreover from k(3) t1 have "nat F + 1 \<le> 2 ^ k" by simp
  from nat_Suc_le_pow2 [OF F0 this] have "F < 2 ^ k" .
  moreover have "k = 0 \<or> 2 ^ (k - 1) \<le> F"
  proof (cases "k = 0")
    case False
    with k(4) t1 have "2 ^ (k - 1) < nat F + 1" by simp
    from pow2_less_nat_Suc [OF F0 this] show ?thesis ..
  qed simp
  ultimately show ?thesis using k(1) by blast
qed

subsection \<open>Small facts for the claims\<close>

lemma valid_activateDelayLine: "valid dl \<Longrightarrow> valid (activateDelayLine dl)"
  by (simp add: valid_def activateDelayLine_def)



lemma is_power_of_twoI: "k < 64 \<Longrightarrow> is_power_of_two (2 ^ k)"
  by (auto simp: is_power_of_two_def)

lemma is_power_of_two_4: "is_power_of_two 4"
  using is_power_of_twoI [of 2] by simp

lemma valid_dl4: "valid dl4"
  by (simp add: dl4_def valid_def is_power_of_two_4 binary32_values)

lemma valid_new:
  assumes "k \<le> 63" and "0 \<le> fMaximumDelay"
    and "\<lfloor>binary32 (binary32 (real (unat lSampleRate)) * fMaximumDelay)\<rfloor> < 2 ^ k"
  shows "valid \<lparr> m_fSampleRate = binary32 (real (unat (lSampleRate :: ulong))),
                  m_fMaximumDelay = fMaximumDelay,
                  m_pfBuffer = map junk [0 ..< 2 ^ k], m_lBufferSize = 2 ^ k,
                  m_lWritePointer = wp0 \<rparr>"
proof -
  from assms(1) have k: "k < 64" by simp
  then have u: "unat ((2::ulong) ^ k) = 2 ^ k" by (rule unat_pow2)
  then have "uint ((2::ulong) ^ k) = 2 ^ k" by (simp only: uint_nat) simp
  moreover have "0 \<le> binary32 (real (unat lSampleRate))"
    by (rule binary32_nonneg) (rule of_nat_0_le_iff)
  ultimately show ?thesis using assms(2,3) u is_power_of_twoI [OF k]
    by (simp add: valid_def)
qed

lemmas run_defs = runSimpleDelayLine_def runFeedbackDelayLine_def feedback_delay_def
  to_ulong_def LIMIT_BETWEEN_def buf_read_def buf_write_def binary32_values

lemma simple_loop_dry:
  "simple_loop msk woff roff 1 0 i xs buf = Some (buf', out) \<Longrightarrow> out = xs"
  by (induction xs arbitrary: i buf out) (auto split: Option.bind_splits)

subsection \<open>A delay of zero samples\<close>

lemma wrap_plus_size:
  "k < 64 \<Longrightarrow> unat ((x + 2 ^ k) AND (2 ^ k - 1) :: ulong) = unat x mod 2 ^ k"
proof -
  assume k: "k < 64"
  have "x + 2 ^ k = (of_nat (unat x + 2 ^ k) :: ulong)" by simp
  then show ?thesis using of_nat_wrap [OF k, of "unat x + 2 ^ k"] by simp
qed

lemma zero_delay_loop:
  "k < 64 \<Longrightarrow> length buf = 2 ^ k \<Longrightarrow>
   \<exists>buf'. simple_loop (2 ^ k - 1) woff (woff + 2 ^ k) fDry fWet i xs buf =
            Some (buf', map (\<lambda>x. fDry * x + fWet * x) xs) \<and> length buf' = 2 ^ k"
proof (induction xs arbitrary: i buf)
  case Nil
  then show ?case by simp
next
  case (Cons x xs)
  let ?w = "unat (i + woff) mod 2 ^ k"
  let ?buf1 = "buf[?w := x]"
  from Cons.prems have len1: "length ?buf1 = 2 ^ k" by simp
  have "unat ((i + woff + 2 ^ k) AND (2 ^ k - 1)) = ?w"
    using Cons.prems(1) by (rule wrap_plus_size)
  then have idx: "unat (i + (woff + 2 ^ k)) mod 2 ^ k = ?w"
    by (simp add: unat_wrap add.assoc)
  from Cons.prems have "?w < length buf" by simp
  then have rd: "?buf1 ! ?w = x" by simp
  from Cons.IH [OF Cons.prems(1) len1, of "i + 1"] obtain buf' where
    "simple_loop (2 ^ k - 1) woff (woff + 2 ^ k) fDry fWet (i + 1) xs ?buf1 =
       Some (buf', map (\<lambda>x. fDry * x + fWet * x) xs)" "length buf' = 2 ^ k" by blast
  with Cons.prems len1 idx rd show ?case
    by (simp add: buf_write_wrap buf_read_wrap)
qed

lemma to_ulong_less_1: "0 \<le> x \<Longrightarrow> x < 1 \<Longrightarrow> to_ulong x = Some 0"
proof -
  assume "0 \<le> x" "x < 1"
  then have "\<lfloor>x\<rfloor> = 0" by (simp add: floor_eq_iff)
  with \<open>0 \<le> x\<close> \<open>x < 1\<close> show ?thesis by (simp add: to_ulong_def)
qed

lemma zero_delay_run:
  assumes "valid dl"
    and "binary32 (LIMIT_BETWEEN delay 0 (m_fMaximumDelay dl) * m_fSampleRate dl) < 1"
  shows "\<exists>dl'. runSimpleDelayLine dl delay wet input =
           Some (dl', map (\<lambda>x. (1 - LIMIT_BETWEEN wet 0 1) * x + LIMIT_BETWEEN wet 0 1 * x) input)"
proof -
  from assms(1) obtain k where k: "k < 64" "m_lBufferSize dl = 2 ^ k"
    "unat (m_lBufferSize dl) = 2 ^ k" "length (m_pfBuffer dl) = 2 ^ k" by (rule validD)
  from assms(1) have "0 \<le> m_fMaximumDelay dl" "0 \<le> m_fSampleRate dl"
    by (simp_all add: valid_def)
  with LIMIT_BETWEEN_range [of 0 "m_fMaximumDelay dl" delay]
  have "0 \<le> LIMIT_BETWEEN delay 0 (m_fMaximumDelay dl) * m_fSampleRate dl" by simp
  then have "0 \<le> binary32 (LIMIT_BETWEEN delay 0 (m_fMaximumDelay dl) * m_fSampleRate dl)"
    by (rule binary32_nonneg)
  from to_ulong_less_1 [OF this assms(2)]
  have D: "to_ulong (binary32 (LIMIT_BETWEEN delay 0 (m_fMaximumDelay dl) * m_fSampleRate dl)) = Some 0" .
  from zero_delay_loop [OF k(1) k(4)] obtain buf' where
    "simple_loop (2 ^ k - 1) (m_lWritePointer dl) (m_lWritePointer dl + 2 ^ k)
       (1 - LIMIT_BETWEEN wet 0 1) (LIMIT_BETWEEN wet 0 1) 0 input (m_pfBuffer dl) =
     Some (buf', map (\<lambda>x. (1 - LIMIT_BETWEEN wet 0 1) * x + LIMIT_BETWEEN wet 0 1 * x) input)"
    by blast
  then show ?thesis by (simp add: runSimpleDelayLine_def D k(2) Let_def)
qed

subsection \<open>The read index and the write index\<close>

lemma read_index:
  assumes k: "k < 64" and d: "d \<le> 2 ^ k"
  shows "unat (i + (woff + 2 ^ k - of_nat d) :: ulong) mod 2 ^ k
           = (unat (i + woff) + (2 ^ k - d)) mod 2 ^ k"
proof -
  have e: "i + (woff + 2 ^ k - of_nat d) = i + woff + (of_nat (2 ^ k - d) :: ulong)"
    using d by (simp add: of_nat_diff)
  have "unat (i + (woff + 2 ^ k - of_nat d)) mod 2 ^ k
          = unat ((i + woff + of_nat (2 ^ k - d)) AND (2 ^ k - 1))"
    by (simp only: e unat_wrap)
  also have "\<dots> = (unat (i + woff) + (2 ^ k - d)) mod 2 ^ k"
    by (rule cursor_advance [OF k])
  finally show ?thesis .
qed

lemma next_index:
  assumes k: "k < 64"
  shows "unat (i + 1 + woff :: ulong) mod 2 ^ k = (unat (i + woff) + 1) mod 2 ^ k"
proof -
  have e: "i + 1 + woff = i + woff + (of_nat 1 :: ulong)" by simp
  have "unat (i + 1 + woff) mod 2 ^ k = unat ((i + woff + of_nat 1) AND (2 ^ k - 1))"
    by (simp only: e unat_wrap)
  also have "\<dots> = (unat (i + woff) + 1) mod 2 ^ k"
    by (rule cursor_advance [OF k])
  finally show ?thesis .
qed

lemma mod_shift_neq:
  fixes a e n :: nat
  assumes "0 < e" and "e < n"
  shows "(a + e) mod n \<noteq> a mod n"
proof
  assume "(a + e) mod n = a mod n"
  then have "n dvd (a + e) - a" by (simp add: mod_eq_dvd_iff_nat)
  then have "n dvd e" by simp
  with assms show False by (auto dest: nat_dvd_not_less)
qed

lemma feedback_zero_loop:
  assumes k: "k < 64" and d: "0 < d" "d < 2 ^ k"
  shows "length buf = 2 ^ k \<Longrightarrow>
     feedback_loop (2 ^ k - 1) woff (woff + 2 ^ k - of_nat d) fDry fWet 0 i xs buf
       = simple_loop (2 ^ k - 1) woff (woff + 2 ^ k - of_nat d) fDry fWet i xs buf"
proof (induction xs arbitrary: i buf)
  case Nil
  then show ?case by simp
next
  case (Cons x xs)
  let ?w = "unat (i + woff) mod 2 ^ k"
  let ?r = "unat (i + (woff + 2 ^ k - of_nat d)) mod 2 ^ k"
  from d have "?r = (unat (i + woff) + (2 ^ k - d)) mod 2 ^ k"
    by (intro read_index [OF k]) simp
  also have "\<dots> = (?w + (2 ^ k - d)) mod 2 ^ k" by (simp add: mod_add_left_eq)
  also from d have "\<dots> \<noteq> ?w mod 2 ^ k" by (intro mod_shift_neq) simp_all
  finally have neq: "?r \<noteq> ?w" by simp
  let ?buf1 = "buf[?w := x]"
  from Cons.prems have len1: "length ?buf1 = 2 ^ k" by simp
  from neq have rd: "?buf1 ! ?r = buf ! ?r" by simp
  from Cons.IH [OF len1, of "i + 1"] Cons.prems len1 rd show ?case
    by (simp add: buf_write_wrap buf_read_wrap k)
qed

subsection \<open>The plain delay on a stream of blocks\<close>

lemma nth_append_left: "j < length xs \<Longrightarrow> (xs @ ys) ! j = xs ! j"
  by (simp add: nth_append)

lemma holds_history_start: "holds_history n (replicate n 0) []"
  by (auto simp: holds_history_def)

lemma holds_history_write:
  assumes "holds_history n buf h" and "0 < n"
  shows "holds_history n (buf[length h mod n := x]) (h @ [x])"
  unfolding holds_history_def
proof (intro conjI ballI)
  from assms(1) show "length (buf[length h mod n := x]) = n" by (simp add: holds_history_def)
next
  fix j assume "j \<in> {length (h @ [x]) ..< length (h @ [x]) + n}"
  then have j: "length h + 1 \<le> j" "j < length h + 1 + n" by simp_all
  from assms have len: "length buf = n" by (simp add: holds_history_def)
  show "buf[length h mod n := x] ! (j mod n) = (replicate n 0 @ h @ [x]) ! j"
  proof (cases "j = length h + n")
    case True
    then have "j mod n = length h mod n" by simp
    moreover from True have "(replicate n 0 @ h @ [x]) ! j = x"
      by (simp add: nth_append)
    ultimately show ?thesis using len assms(2) by simp
  next
    case False
    with j have lt: "j < length h + n" by simp
    from j lt have "(length h + (j - length h)) mod n \<noteq> length h mod n"
      by (intro mod_shift_neq) simp_all
    with j have neq: "j mod n \<noteq> length h mod n" by simp
    from j lt assms(1) have "buf ! (j mod n) = (replicate n 0 @ h) ! j"
      by (simp add: holds_history_def)
    also from lt have "\<dots> = (replicate n 0 @ h @ [x]) ! j"
      using nth_append_left [of j "replicate n 0 @ h" "[x]"] by simp
    finally show ?thesis using neq by simp
  qed
qed

lemma simple_loop_history:
  assumes k: "k < 64" and d: "d < 2 ^ k"
  shows "holds_history (2 ^ k) buf h \<Longrightarrow> unat (i + woff) mod 2 ^ k = length h mod 2 ^ k \<Longrightarrow>
     \<exists>buf' out. simple_loop (2 ^ k - 1) woff (woff + 2 ^ k - of_nat d) fDry fWet i xs buf
                   = Some (buf', out)
       \<and> holds_history (2 ^ k) buf' (h @ xs)
       \<and> length out = length xs
       \<and> (\<forall>m < length xs. out ! m =
             fDry * xs ! m + fWet * (replicate (2 ^ k) 0 @ h @ xs) ! (length h + m + 2 ^ k - d))"
proof (induction xs arbitrary: i buf h)
  case Nil
  then show ?case by simp
next
  case (Cons x xs)
  let ?n = "(2::nat) ^ k"
  let ?T = "length h"
  let ?buf1 = "buf[?T mod ?n := x]"
  from Cons.prems(1) have len: "length buf = ?n" by (simp add: holds_history_def)
  have inv1: "holds_history ?n ?buf1 (h @ [x])"
    using Cons.prems(1) by (rule holds_history_write) simp
  have "Suc (unat (i + woff)) mod ?n = Suc ?T mod ?n"
    using Cons.prems(2) by (metis mod_Suc_eq)
  then have pos1: "unat (i + 1 + woff) mod ?n = length (h @ [x]) mod ?n"
    using next_index [OF k, of i woff] by simp
  have "unat (i + (woff + 2 ^ k - of_nat d)) mod ?n = (unat (i + woff) + (?n - d)) mod ?n"
    using d by (intro read_index [OF k]) simp
  also have "\<dots> = (?T + (?n - d)) mod ?n"
    using Cons.prems(2) by (metis mod_add_left_eq)
  finally have ridx: "unat (i + (woff + 2 ^ k - of_nat d)) mod ?n = (?T + ?n - d) mod ?n"
    using d by simp
  from d have "?T + 1 \<le> ?T + ?n - d" "?T + ?n - d < ?T + 1 + ?n" by linarith+
  then have "?T + ?n - d \<in> {length (h @ [x]) ..< length (h @ [x]) + ?n}" by simp
  with inv1 have rd: "?buf1 ! ((?T + ?n - d) mod ?n) = (replicate ?n 0 @ h @ [x]) ! (?T + ?n - d)"
    unfolding holds_history_def by (metis append_assoc)
  from d have "(replicate ?n 0 @ h @ x # xs) ! (?T + ?n - d) = (replicate ?n 0 @ h @ [x]) ! (?T + ?n - d)"
    using nth_append_left [of "?T + ?n - d" "replicate ?n 0 @ h @ [x]" xs] by simp
  with rd have rd': "?buf1 ! ((?T + ?n - d) mod ?n) = (replicate ?n 0 @ h @ x # xs) ! (?T + ?n - d)"
    by simp
  from Cons.IH [OF inv1, of "i + 1"] pos1 obtain buf' out where
    loop: "simple_loop (2 ^ k - 1) woff (woff + 2 ^ k - of_nat d) fDry fWet (i + 1) xs ?buf1
             = Some (buf', out)"
    and inv': "holds_history ?n buf' ((h @ [x]) @ xs)"
    and lo: "length out = length xs"
    and out: "\<forall>m < length xs. out ! m =
             fDry * xs ! m + fWet * (replicate ?n 0 @ (h @ [x]) @ xs) ! (length (h @ [x]) + m + ?n - d)"
    by blast
  let ?o = "fDry * x + fWet * (replicate ?n 0 @ h @ x # xs) ! (?T + ?n - d)"
  have run: "simple_loop (2 ^ k - 1) woff (woff + 2 ^ k - of_nat d) fDry fWet i (x # xs) buf
               = Some (buf', ?o # out)"
    using loop len Cons.prems(2) ridx rd'
    by (simp add: buf_write_wrap [OF k] buf_read_wrap [OF k])
  have "\<forall>m < length (x # xs). (?o # out) ! m =
             fDry * (x # xs) ! m + fWet * (replicate ?n 0 @ h @ x # xs) ! (?T + m + ?n - d)"
  proof (intro allI impI)
    fix m assume "m < length (x # xs)"
    then show "(?o # out) ! m =
             fDry * (x # xs) ! m + fWet * (replicate ?n 0 @ h @ x # xs) ! (?T + m + ?n - d)"
      using out by (cases m) simp_all
  qed
  with run inv' lo show ?case by simp
qed

lemma runSimpleDelayLine_history:
  fixes dl :: DelayLine and delay :: LADSPA_Data
  assumes v: "valid dl" and k: "k < 64" "m_lBufferSize dl = 2 ^ k"
    and inv: "holds_history (2 ^ k) (m_pfBuffer dl) h"
    and pos: "unat (m_lWritePointer dl) mod 2 ^ k = length h mod 2 ^ k"
  defines "d \<equiv> nat \<lfloor>binary32 (LIMIT_BETWEEN delay 0 (m_fMaximumDelay dl) * m_fSampleRate dl)\<rfloor>"
  shows "\<exists>dl' out. runSimpleDelayLine dl delay wet xs = Some (dl', out)
       \<and> valid dl' \<and> same_engine dl dl'
       \<and> holds_history (2 ^ k) (m_pfBuffer dl') (h @ xs)
       \<and> unat (m_lWritePointer dl') mod 2 ^ k = length (h @ xs) mod 2 ^ k
       \<and> length out = length xs
       \<and> (\<forall>m < length xs. out ! m =
             (1 - LIMIT_BETWEEN wet 0 1) * xs ! m
             + LIMIT_BETWEEN wet 0 1 * (replicate (2 ^ k) 0 @ h @ xs) ! (length h + m + 2 ^ k - d))"
proof -
  note D = delay_samples [OF v, of delay, folded d_def]
  from k have u: "unat (m_lBufferSize dl) = 2 ^ k" by (simp add: unat_pow2)
  with D(3) have dn: "d < 2 ^ k" by simp
  from pos have pos0: "unat (0 + m_lWritePointer dl) mod 2 ^ k = length h mod 2 ^ k" by simp
  from simple_loop_history [OF k(1) dn inv pos0, of "1 - LIMIT_BETWEEN wet 0 1" "LIMIT_BETWEEN wet 0 1" xs]
  obtain buf' out where
    loop: "simple_loop (2 ^ k - 1) (m_lWritePointer dl) (m_lWritePointer dl + 2 ^ k - of_nat d)
             (1 - LIMIT_BETWEEN wet 0 1) (LIMIT_BETWEEN wet 0 1) 0 xs (m_pfBuffer dl) = Some (buf', out)"
    and inv': "holds_history (2 ^ k) buf' (h @ xs)"
    and lo: "length out = length xs"
    and out: "\<forall>m < length xs. out ! m =
             (1 - LIMIT_BETWEEN wet 0 1) * xs ! m
             + LIMIT_BETWEEN wet 0 1 * (replicate (2 ^ k) 0 @ h @ xs) ! (length h + m + 2 ^ k - d)"
    by blast
  let ?wp' = "(m_lWritePointer dl + of_nat (length xs)) AND (2 ^ k - 1)"
  let ?dl' = "dl \<lparr> m_pfBuffer := buf', m_lWritePointer := ?wp' \<rparr>"
  from loop have run: "runSimpleDelayLine dl delay wet xs = Some (?dl', out)"
    by (simp add: runSimpleDelayLine_def D(1) k(2))
  from inv' have "length buf' = 2 ^ k" by (simp add: holds_history_def)
  with v u have v': "valid ?dl'" by (simp add: valid_def)
  have same: "same_engine dl ?dl'" by (simp add: same_engine_def)
  have "unat ?wp' = (unat (m_lWritePointer dl) + length xs) mod 2 ^ k"
    by (rule cursor_advance [OF k(1)])
  also have "\<dots> = (length h + length xs) mod 2 ^ k"
    using pos by (metis mod_add_left_eq)
  finally have pos': "unat (m_lWritePointer ?dl') mod 2 ^ k = length (h @ xs) mod 2 ^ k"
    by simp
  from run v' same inv' pos' lo out show ?thesis
    by (intro exI [of _ ?dl'] exI [of _ out]) simp
qed

lemma echo_blocks_history:
  fixes sr mx delay wet :: LADSPA_Data
  defines "d \<equiv> nat \<lfloor>binary32 (LIMIT_BETWEEN delay 0 mx * sr)\<rfloor>" and "w \<equiv> LIMIT_BETWEEN wet 0 1"
  assumes k: "k < 64"
  shows "valid dl \<Longrightarrow> m_lBufferSize dl = 2 ^ k \<Longrightarrow> m_fSampleRate dl = sr \<Longrightarrow>
     m_fMaximumDelay dl = mx \<Longrightarrow> holds_history (2 ^ k) (m_pfBuffer dl) h \<Longrightarrow>
     unat (m_lWritePointer dl) mod 2 ^ k = length h mod 2 ^ k \<Longrightarrow>
     \<exists>dl' out. run_blocks dl (map (Echo delay wet) inputs) = Some (dl', out)
       \<and> length out = length (concat inputs)
       \<and> (\<forall>m < length (concat inputs). out ! m =
             (1 - w) * concat inputs ! m
             + w * (replicate (2 ^ k) 0 @ h @ concat inputs) ! (length h + m + 2 ^ k - d))"
proof (induction inputs arbitrary: dl h)
  case Nil
  then show ?case by simp
next
  case (Cons xs inputs)
  let ?Z = "replicate (2 ^ k) (0 :: LADSPA_Data)"
  let ?s = "concat inputs"
  from runSimpleDelayLine_history [OF Cons.prems(1) k Cons.prems(2) Cons.prems(5,6), of delay wet xs]
    Cons.prems(3,4)
  obtain dl1 out1 where
    r1: "runSimpleDelayLine dl delay wet xs = Some (dl1, out1)"
    and v1: "valid dl1" and same: "same_engine dl dl1"
    and inv1: "holds_history (2 ^ k) (m_pfBuffer dl1) (h @ xs)"
    and pos1: "unat (m_lWritePointer dl1) mod 2 ^ k = length (h @ xs) mod 2 ^ k"
    and l1: "length out1 = length xs"
    and o1: "\<forall>m < length xs. out1 ! m =
             (1 - w) * xs ! m + w * (?Z @ h @ xs) ! (length h + m + 2 ^ k - d)"
    unfolding d_def w_def by blast
  from same Cons.prems(2,3,4) have f1: "m_lBufferSize dl1 = 2 ^ k" "m_fSampleRate dl1 = sr"
    "m_fMaximumDelay dl1 = mx" by (simp_all add: same_engine_def)
  from Cons.IH [OF v1 f1 inv1 pos1] obtain dl2 out2 where
    r2: "run_blocks dl1 (map (Echo delay wet) inputs) = Some (dl2, out2)"
    and l2: "length out2 = length ?s"
    and o2: "\<forall>m < length ?s. out2 ! m =
             (1 - w) * ?s ! m + w * (?Z @ (h @ xs) @ ?s) ! (length (h @ xs) + m + 2 ^ k - d)"
    by blast
  from r1 r2 have run: "run_blocks dl (map (Echo delay wet) (xs # inputs)) = Some (dl2, out1 @ out2)"
    by simp
  have "(out1 @ out2) ! m =
             (1 - w) * concat (xs # inputs) ! m
             + w * (?Z @ h @ concat (xs # inputs)) ! (length h + m + 2 ^ k - d)"
    if m: "m < length (concat (xs # inputs))" for m
  proof (cases "m < length xs")
    case True
    then have "length h + m + 2 ^ k - d < length (?Z @ h @ xs)" by simp
    from nth_append_left [OF this, of ?s]
    have "(?Z @ h @ xs @ ?s) ! (length h + m + 2 ^ k - d) = (?Z @ h @ xs) ! (length h + m + 2 ^ k - d)"
      by simp
    with True o1 l1 show ?thesis by (simp add: nth_append)
  next
    case False
    with m have m2: "m - length xs < length ?s" by simp
    from False have "length (h @ xs) + (m - length xs) + 2 ^ k - d = length h + m + 2 ^ k - d"
      by simp
    with o2 m2 have "out2 ! (m - length xs) =
        (1 - w) * ?s ! (m - length xs) + w * (?Z @ h @ xs @ ?s) ! (length h + m + 2 ^ k - d)"
      by simp
    with False l1 show ?thesis by (simp add: nth_append)
  qed
  with run l1 l2 show ?case by simp
qed

lemma echo_response:
  fixes dl :: DelayLine and delay wet :: LADSPA_Data
  defines "d \<equiv> nat \<lfloor>binary32 (LIMIT_BETWEEN delay 0 (m_fMaximumDelay dl) * m_fSampleRate dl)\<rfloor>"
    and "w \<equiv> LIMIT_BETWEEN wet 0 1"
  assumes v: "valid dl"
  shows "\<exists>dl' out. run_blocks (activateDelayLine dl) (map (Echo delay wet) inputs) = Some (dl', out)
       \<and> length out = length (concat inputs)
       \<and> (\<forall>m < length (concat inputs). out ! m =
             (1 - w) * concat inputs ! m + w * (if m < d then 0 else concat inputs ! (m - d)))"
proof -
  let ?a = "activateDelayLine dl"
  let ?s = "concat inputs"
  from v obtain k where k: "k < 64" "m_lBufferSize dl = 2 ^ k"
    "unat (m_lBufferSize dl) = 2 ^ k" by (rule validD)
  let ?Z = "replicate (2 ^ k) (0 :: LADSPA_Data)"
  from delay_samples(3) [OF v, of delay] k(3) have dn: "d < 2 ^ k" by (simp add: d_def)
  have a: "valid ?a" "m_lBufferSize ?a = 2 ^ k" "m_fSampleRate ?a = m_fSampleRate dl"
    "m_fMaximumDelay ?a = m_fMaximumDelay dl" "m_pfBuffer ?a = ?Z" "m_lWritePointer ?a = 0"
    using v k by (simp_all add: valid_activateDelayLine) (simp_all add: activateDelayLine_def)
  have inv: "holds_history (2 ^ k) (m_pfBuffer ?a) []"
    by (simp only: a holds_history_start)
  have pos: "unat (m_lWritePointer ?a) mod 2 ^ k = length ([] :: LADSPA_Data list) mod 2 ^ k"
    by (simp add: a)
  from echo_blocks_history [OF k(1) a(1,2,3,4) inv pos, of delay wet inputs]
  obtain dl' out where
    run: "run_blocks ?a (map (Echo delay wet) inputs) = Some (dl', out)"
    and len: "length out = length ?s"
    and out: "\<forall>m < length ?s. out ! m =
             (1 - w) * ?s ! m + w * (?Z @ [] @ ?s) ! (length ([] :: LADSPA_Data list) + m + 2 ^ k - d)"
    unfolding d_def w_def by blast
  have "(?Z @ ?s) ! (m + 2 ^ k - d) = (if m < d then 0 else ?s ! (m - d))"
    if "m < length ?s" for m
  proof (cases "m < d")
    case True
    with dn have "m + 2 ^ k - d < 2 ^ k" by simp
    with True show ?thesis by (simp add: nth_append)
  next
    case False
    with dn have "\<not> m + 2 ^ k - d < 2 ^ k" "m + 2 ^ k - d - 2 ^ k = m - d" by simp_all
    with False show ?thesis by (simp add: nth_append)
  qed
  with out have "\<forall>m < length ?s. out ! m =
             (1 - w) * ?s ! m + w * (if m < d then 0 else ?s ! (m - d))"
    by simp
  with run len show ?thesis by blast
qed

lemma impulse_nth:
  "t < p + 1 + q \<Longrightarrow>
   (replicate p 0 @ [1] @ replicate q 0) ! t = (if t = p then 1 else (0 :: LADSPA_Data))"
  by (auto simp: nth_append nth_Cons')

subsection \<open>The invariant holds in every state that is reached\<close>

text \<open>
  The constructor returns a valid engine, \<^verbatim>\<open>activateDelayLine\<close> (see \<open>valid_activateDelayLine\<close>)
  and the two run functions keep it valid; the small engine \<open>dl4\<close> is what the
  constructor returns at 2 samples per second and a maximum delay of 1 second.
\<close>

lemma valid_DelayLine_new:
  assumes "DelayLine_new lSampleRate fMaximumDelay avail junk wp0 = Some (Inr dl)"
    and "0 \<le> fMaximumDelay"
    and "\<lfloor>binary32 (binary32 (real (unat lSampleRate)) * fMaximumDelay)\<rfloor> < 2 ^ 63"
  shows "valid dl"
proof -
  from DelayLine_new_Some [OF assms(2,3), of avail junk wp0] obtain k where k: "k \<le> 63"
    "DelayLine_new lSampleRate fMaximumDelay avail junk wp0 =
           Some (if (2::nat) ^ k < 2 ^ 61 \<and> 2 ^ k \<le> avail
                 then Inr \<lparr> m_fSampleRate = binary32 (real (unat lSampleRate)),
                            m_fMaximumDelay = fMaximumDelay,
                            m_pfBuffer = map junk [0 ..< 2 ^ k], m_lBufferSize = 2 ^ k,
                            m_lWritePointer = wp0 \<rparr>
                 else Inl bad_alloc)"
    "\<lfloor>binary32 (binary32 (real (unat lSampleRate)) * fMaximumDelay)\<rfloor> < 2 ^ k" by blast
  from k(2) assms(1) valid_new [OF k(1) assms(2) k(3), of junk wp0] show ?thesis
    by (simp split: if_splits)
qed

lemma valid_runSimpleDelayLine:
  "valid dl \<Longrightarrow> runSimpleDelayLine dl delay wet input = Some (dl', out) \<Longrightarrow> valid dl'"
  using runSimpleDelayLine_Some [of dl delay wet input] by auto

lemma valid_runFeedbackDelayLine:
  "valid dl \<Longrightarrow> runFeedbackDelayLine dl delay wet feedback input = Some (dl', out) \<Longrightarrow> valid dl'"
  using runFeedbackDelayLine_Some [of dl delay wet feedback input] by auto

lemma upt_4: "[0 ..< 4] = [0, 1, 2, 3]"
  by (simp add: numeral_eq_Suc)

lemma upt_2: "[0 ..< 2] = [0, 1]"
  by (simp add: numeral_eq_Suc)

lemma cast_100_hundredth:
  "to_ulong (binary32 (binary32 (real (unat (100::ulong))) * (10737418 / 2 ^ 30))) = Some 1"
  by code_simp

lemma dl2_constructed: "DelayLine_new 100 (10737418 / 2 ^ 30) 2 ((!) [5, 6]) 1 = Some (Inr dl2)"
  unfolding DelayLine_new_def cast_100_hundredth
  by (simp add: new_array_def grow_step grow_stop dl2_def upt_2 binary32_values)

lemma valid_dl2: "valid dl2"
  by code_simp

text \<open>
  At 44100 samples per second a delay of \<^verbatim>\<open>0.01f\<close> is 441 samples: the product, a little
  less than 441, is rounded to 441 before the cast. The floor of the exact product is 440.
\<close>

lemma cast_44100_hundredth:
  "to_ulong (binary32 (LIMIT_BETWEEN (10737418 / 2 ^ 30) 0 (10737418 / 2 ^ 30) * 44100)) = Some 441"
  "\<lfloor>LIMIT_BETWEEN (10737418 / 2 ^ 30) 0 (10737418 / 2 ^ 30) * (44100::real)\<rfloor> = 440"
  by code_simp+

lemma dl4_constructed: "DelayLine_new 2 1 4 ((!) [5, 6, 7, 8]) 3 = Some (Inr dl4)"
  by (simp add: DelayLine_new_def new_array_def to_ulong_def grow_step grow_stop dl4_def upt_4
      binary32_values)

section \<open>The claims\<close>

subsection \<open>C1: the impulse response of the plain delay\<close>

text \<open>
  Claim C1, as it is stated, with the offset \<open>round (d * sampleRate)\<close>, fails where
  \<open>d * sampleRate\<close> is not a whole number: the cast to \<^verbatim>\<open>unsigned long\<close> truncates. At
  2 samples per second and a delay of 3/4 second, \<open>d * sampleRate\<close> is 3/2, which rounds
  to 2 and is truncated to 1. The impulse is at index 1 of the input stream, which comes
  in two blocks; the output has its 1 at index 2, and 0 at index \<open>1 + 2\<close>.
\<close>

theorem impulse_offset_is_not_rounded:
  "map_option snd (run_blocks (activateDelayLine dl4)
      [Echo (3 / 4) 1 [0, 1, 0], Echo (3 / 4) 1 [0, 0, 0, 0, 0, 0]])
     = Some [0, 0, 1, 0, 0, 0, 0, 0, 0]
   \<and> round (3 / 4 * m_fSampleRate dl4) = 2
   \<and> [0, 0, 1, 0, 0, 0, 0, 0, 0 :: LADSPA_Data] ! (1 + nat (round (3 / 4 * m_fSampleRate dl4))) \<noteq> 1"
  by (simp add: dl4_def activateDelayLine_def run_defs round_def)

text \<open>
  Claim C1, amended. After \<^verbatim>\<open>activateDelayLine\<close> on a valid engine, let the input stream
  be \<open>p\<close> zeros, a one and \<open>q\<close> zeros, cut into blocks in any way, and let every block be
  run by \<^verbatim>\<open>runSimpleDelayLine\<close> with the wet port at 1 and the delay port at \<open>delay\<close>.
  Then all blocks are processed, the output stream is as long as the input stream, and
  its sample at index \<open>t\<close> is 1 when \<open>t\<close> is \<open>p\<close> plus the delay in samples, and 0
  otherwise, where the delay in samples is the clamped delay times the sample rate,
  rounded to binary32 and then truncated:
  \<open>\<lfloor>binary32 (LIMIT_BETWEEN delay 0 m_fMaximumDelay * m_fSampleRate)\<rfloor>\<close>.
\<close>

theorem impulse_response:
  assumes "valid dl" and "concat inputs = replicate p 0 @ [1] @ replicate q 0"
  shows "\<exists>dl' out. run_blocks (activateDelayLine dl) (map (Echo delay 1) inputs) = Some (dl', out)
       \<and> length out = p + 1 + q
       \<and> (\<forall>t < p + 1 + q. out ! t =
            (if t = p + nat \<lfloor>binary32 (LIMIT_BETWEEN delay 0 (m_fMaximumDelay dl) * m_fSampleRate dl)\<rfloor>
             then 1 else 0))"
proof -
  let ?d = "nat \<lfloor>binary32 (LIMIT_BETWEEN delay 0 (m_fMaximumDelay dl) * m_fSampleRate dl)\<rfloor>"
  let ?s = "replicate p 0 @ [1] @ replicate q (0 :: LADSPA_Data)"
  have w: "LIMIT_BETWEEN 1 0 1 = 1" by (simp add: LIMIT_BETWEEN_def)
  from echo_response [OF assms(1), of delay 1 inputs] obtain dl' out where
    run: "run_blocks (activateDelayLine dl) (map (Echo delay 1) inputs) = Some (dl', out)"
    and len: "length out = length ?s"
    and out: "\<forall>m < length ?s. out ! m = (if m < ?d then 0 else ?s ! (m - ?d))"
    unfolding assms(2) w by auto
  have "out ! t = (if t = p + ?d then 1 else 0)" if t: "t < p + 1 + q" for t
  proof (cases "t < ?d")
    case True
    with out t show ?thesis by simp
  next
    case False
    with t have "t - ?d < p + 1 + q" by simp
    from impulse_nth [OF this] False out t show ?thesis by auto
  qed
  with run len show ?thesis by simp
qed

text \<open>
  Two instances. On \<open>dl4\<close> the product is 3/2 and the delay 1 sample. On \<open>dl2\<close>, at
  100 samples per second with a delay of \<^verbatim>\<open>0.01f\<close>, the exact product is less than 1,
  but it is rounded to 1 and the delay is 1 sample.
\<close>

theorem impulse_response_witness:
  "valid dl4
   \<and> concat [[0, 1, 0], [0, 0, 0, 0, 0, 0 :: LADSPA_Data]] = replicate 1 0 @ [1] @ replicate 7 0
   \<and> nat \<lfloor>binary32 (LIMIT_BETWEEN (3 / 4) 0 (m_fMaximumDelay dl4) * m_fSampleRate dl4)\<rfloor> = 1
   \<and> map_option snd (run_blocks (activateDelayLine dl4)
         (map (Echo (3 / 4) 1) [[0, 1, 0], [0, 0, 0, 0, 0, 0]]))
       = Some [0, 0, 1, 0, 0, 0, 0, 0, 0]
   \<and> valid dl2
   \<and> concat [[1], [0, 0 :: LADSPA_Data]] = replicate 0 0 @ [1] @ replicate 2 0
   \<and> nat \<lfloor>binary32 (LIMIT_BETWEEN (10737418 / 2 ^ 30) 0 (m_fMaximumDelay dl2)
                        * m_fSampleRate dl2)\<rfloor> = 1
   \<and> \<lfloor>LIMIT_BETWEEN (10737418 / 2 ^ 30) 0 (m_fMaximumDelay dl2) * m_fSampleRate dl2\<rfloor> = 0
   \<and> map_option snd (run_blocks (activateDelayLine dl2)
         (map (Echo (10737418 / 2 ^ 30) 1) [[1], [0, 0]]))
       = Some [0, 1, 0]"
proof -
  have h: "concat [[0, 1, 0], [0, 0, 0, 0, 0, 0 :: LADSPA_Data]] = replicate 1 0 @ [1] @ replicate 7 0"
    by (simp add: numeral_eq_Suc)
  have h2: "concat [[1], [0, 0 :: LADSPA_Data]] = replicate 0 0 @ [1] @ replicate 2 0"
    by (simp add: numeral_eq_Suc)
  have e4: "nat \<lfloor>binary32 (LIMIT_BETWEEN (3 / 4) 0 (m_fMaximumDelay dl4) * m_fSampleRate dl4)\<rfloor> = 1"
    "map_option snd (run_blocks (activateDelayLine dl4)
         (map (Echo (3 / 4) 1) [[0, 1, 0], [0, 0, 0, 0, 0, 0]]))
       = Some [0, 0, 1, 0, 0, 0, 0, 0, 0]"
    by (simp_all add: dl4_def activateDelayLine_def run_defs)
  have e2: "nat \<lfloor>binary32 (LIMIT_BETWEEN (10737418 / 2 ^ 30) 0 (m_fMaximumDelay dl2)
                        * m_fSampleRate dl2)\<rfloor> = 1"
    "\<lfloor>LIMIT_BETWEEN (10737418 / 2 ^ 30) 0 (m_fMaximumDelay dl2) * m_fSampleRate dl2\<rfloor> = 0"
    "map_option snd (run_blocks (activateDelayLine dl2)
         (map (Echo (10737418 / 2 ^ 30) 1) [[1], [0, 0]]))
       = Some [0, 1, 0]"
    by code_simp+
  from impulse_response [OF valid_dl4 h, of "3 / 4"]
    impulse_response [OF valid_dl2 h2, of "10737418 / 2 ^ 30"]
    valid_dl4 valid_dl2 h h2 e4 e2
  show ?thesis by blast
qed

subsection \<open>C2: the order of the write and the read in the plain delay\<close>

text \<open>
  Claim C2, as it is stated, fails: the loop of \<^verbatim>\<open>runSimpleDelayLine\<close> stores the input
  sample first and reads the delayed sample from the buffer afterwards. With a delay of
  zero samples and a wet value of 1, on the buffer \<open>[5, 6, 7, 8]\<close> with the write pointer
  at 3, the output for the input sample 1 is 1, the sample just written, and not 8,
  the old value of the slot.
\<close>

theorem read_before_write_counterexample:
  "map_option snd (runSimpleDelayLine dl4 0 1 [1]) = Some [1]
   \<and> map_option snd (runSimpleDelayLine dl4 0 1 [1]) \<noteq>
       Some [(1 - 1) * 1 + 1 * (m_pfBuffer dl4 ! unat (m_lWritePointer dl4))]"
  by (simp add: dl4_def run_defs)

text \<open>
  Claim C2, amended. The write of the input sample comes before the read of the delayed
  sample, so when the delay is zero samples (the rounded product of the clamped delay
  and the sample rate is less than 1) the read returns the sample that was just
  written: every output sample is \<open>fDry * x + fWet * x\<close> for the input sample \<open>x\<close> at
  its index.
\<close>

theorem zero_delay_reads_written_sample:
  assumes "valid dl"
    and "binary32 (LIMIT_BETWEEN delay 0 (m_fMaximumDelay dl) * m_fSampleRate dl) < 1"
  shows "\<exists>dl'. runSimpleDelayLine dl delay wet input =
           Some (dl', map (\<lambda>x. (1 - LIMIT_BETWEEN wet 0 1) * x + LIMIT_BETWEEN wet 0 1 * x) input)"
  using assms by (rule zero_delay_run)

theorem zero_delay_reads_written_sample_witness:
  "valid dl4 \<and> binary32 (LIMIT_BETWEEN (1 / 4) 0 (m_fMaximumDelay dl4) * m_fSampleRate dl4) < 1
   \<and> runSimpleDelayLine dl4 (1 / 4) (1 / 4) [1, 2] =
       Some (dl4 \<lparr> m_pfBuffer := [2, 6, 7, 1], m_lWritePointer := 1 \<rparr>,
             [(1 - 1 / 4) * 1 + 1 / 4 * 1, (1 - 1 / 4) * 2 + 1 / 4 * 2])"
proof -
  have h: "binary32 (LIMIT_BETWEEN (1 / 4) 0 (m_fMaximumDelay dl4) * m_fSampleRate dl4) < 1"
    by (simp add: dl4_def LIMIT_BETWEEN_def binary32_values)
  from zero_delay_reads_written_sample [OF valid_dl4 h, of "1 / 4" "[1, 2]"] valid_dl4 h
  show ?thesis by (simp add: dl4_def run_defs)
qed

subsection \<open>C3: wet 1 and delay 0\<close>

text \<open>
  Claim C3. On every valid engine, whatever the buffer holds and wherever the write
  pointer is, \<^verbatim>\<open>runSimpleDelayLine\<close> with the delay port at 0 and the wet port at 1
  returns, and its output block is its input block. Every state that is reached from
  the constructor by activations and runs is valid.
\<close>

theorem wet_one_delay_zero_is_identity:
  assumes "valid dl"
  shows "\<exists>dl'. runSimpleDelayLine dl 0 1 input = Some (dl', input)"
proof -
  from assms have "0 \<le> m_fMaximumDelay dl" by (simp add: valid_def)
  then have "binary32 (LIMIT_BETWEEN 0 0 (m_fMaximumDelay dl) * m_fSampleRate dl) < 1"
    by (simp add: LIMIT_BETWEEN_def)
  from zero_delay_run [OF assms this, of 1 input] show ?thesis
    by (simp add: LIMIT_BETWEEN_def)
qed

theorem wet_one_delay_zero_is_identity_witness:
  "valid dl4 \<and> runSimpleDelayLine dl4 0 1 [1, 2, 3, 4, 5] =
      Some (dl4 \<lparr> m_pfBuffer := [2, 3, 4, 5], m_lWritePointer := 0 \<rparr>, [1, 2, 3, 4, 5])"
  using wet_one_delay_zero_is_identity [OF valid_dl4, of "[1, 2, 3, 4, 5]"] valid_dl4
  by (simp add: dl4_def run_defs)

subsection \<open>C4: wet 0\<close>

text \<open>
  Claim C4. On every valid engine, for every value of the delay port and every input
  block (of any length), \<^verbatim>\<open>runSimpleDelayLine\<close> with the wet port at 0 returns, and
  its output block is its input block.
\<close>

theorem wet_zero_is_identity:
  assumes "valid dl"
  shows "\<exists>dl'. runSimpleDelayLine dl delay 0 input = Some (dl', input)"
proof -
  from runSimpleDelayLine_Some [OF assms, of delay 0 input] obtain dl' out
    where r: "runSimpleDelayLine dl delay 0 input = Some (dl', out)" by blast
  then have "out = input"
    by (auto simp: runSimpleDelayLine_def LIMIT_BETWEEN_def [of 0 0 1] Let_def
        split: Option.bind_splits dest: simple_loop_dry)
  with r show ?thesis by simp
qed

theorem wet_zero_is_identity_witness:
  "valid dl4 \<and> runSimpleDelayLine dl4 (1 / 2) 0 [1, 2, 3, 4, 5] =
      Some (dl4 \<lparr> m_pfBuffer := [2, 3, 4, 5], m_lWritePointer := 0 \<rparr>, [1, 2, 3, 4, 5])"
  using wet_zero_is_identity [OF valid_dl4, of "1 / 2" "[1, 2, 3, 4, 5]"] valid_dl4
  by (simp add: dl4_def run_defs)

subsection \<open>C5: the feedback delay without feedback\<close>

text \<open>
  Claim C5, as it is stated, for every value of the delay port, fails where the clamped
  delay converts to 0 samples: \<^verbatim>\<open>runFeedbackDelayLine\<close> then uses a delay of 1 sample,
  \<^verbatim>\<open>runSimpleDelayLine\<close> a delay of 0. With the delay port at 0, the wet port at 1 and
  the input block \<open>[1]\<close>, on the buffer \<open>[5, 6, 7, 8]\<close> with the write pointer at 3, the
  feedback delay puts out 7, the sample before, and the plain delay puts out 1.
\<close>

theorem feedback_zero_differs_at_zero_delay:
  "runFeedbackDelayLine dl4 0 1 0 [1] =
     Some (dl4 \<lparr> m_pfBuffer := [5, 6, 7, 1], m_lWritePointer := 0 \<rparr>, [7])
   \<and> runSimpleDelayLine dl4 0 1 [1] =
     Some (dl4 \<lparr> m_pfBuffer := [5, 6, 7, 1], m_lWritePointer := 0 \<rparr>, [1])
   \<and> runFeedbackDelayLine dl4 0 1 0 [1] \<noteq> runSimpleDelayLine dl4 0 1 [1]"
  by (simp add: dl4_def run_defs)

text \<open>
  Claim C5, amended. On every valid engine, for every input block and every value of
  the wet port, and every value of the delay port whose clamped value converts to at
  least 1 sample (the rounded product of the clamped delay and the sample rate is at
  least 1), \<^verbatim>\<open>runFeedbackDelayLine\<close> with the feedback port at 0 returns what
  \<^verbatim>\<open>runSimpleDelayLine\<close> returns: the same output block, buffer and write pointer.
\<close>

theorem feedback_zero_is_plain_delay:
  assumes "valid dl"
    and "1 \<le> binary32 (LIMIT_BETWEEN delay 0 (m_fMaximumDelay dl) * m_fSampleRate dl)"
  shows "runFeedbackDelayLine dl delay wet 0 input = runSimpleDelayLine dl delay wet input
       \<and> (\<exists>r. runSimpleDelayLine dl delay wet input = Some r)"
proof -
  let ?x = "binary32 (LIMIT_BETWEEN delay 0 (m_fMaximumDelay dl) * m_fSampleRate dl)"
  let ?d = "nat \<lfloor>?x\<rfloor>"
  from assms(1) obtain k where k: "k < 64" "m_lBufferSize dl = 2 ^ k"
    "unat (m_lBufferSize dl) = 2 ^ k" "length (m_pfBuffer dl) = 2 ^ k" by (rule validD)
  note D = delay_samples [OF assms(1), of delay]
  from assms(2) have "1 \<le> \<lfloor>?x\<rfloor>" by (simp add: le_floor_iff)
  then have d0: "0 < ?d" by simp
  from D(3) k(3) have dn: "?d < 2 ^ k" by simp
  from d0 D(2) have nz: "(of_nat ?d :: ulong) \<noteq> 0" by (metis less_numeral_extra(3) unat_0)
  have fb: "LIMIT_BETWEEN 0 (- 1) 1 = 0" by (simp add: LIMIT_BETWEEN_def)
  from feedback_zero_loop [OF k(1) d0 dn k(4)]
  have "runFeedbackDelayLine dl delay wet 0 input = runSimpleDelayLine dl delay wet input"
    by (simp add: runFeedbackDelayLine_def runSimpleDelayLine_def feedback_delay_def D(1) nz fb k(2))
  moreover from runSimpleDelayLine_Some [OF assms(1), of delay wet input]
  have "\<exists>r. runSimpleDelayLine dl delay wet input = Some r" by blast
  ultimately show ?thesis ..
qed

theorem feedback_zero_is_plain_delay_witness:
  "valid dl4 \<and> 1 \<le> binary32 (LIMIT_BETWEEN (3 / 4) 0 (m_fMaximumDelay dl4) * m_fSampleRate dl4)
   \<and> runFeedbackDelayLine dl4 (3 / 4) (1 / 2) 0 [1, 2] =
        Some (dl4 \<lparr> m_pfBuffer := [2, 6, 7, 1], m_lWritePointer := 1 \<rparr>, [4, 3 / 2])
   \<and> runSimpleDelayLine dl4 (3 / 4) (1 / 2) [1, 2] =
        Some (dl4 \<lparr> m_pfBuffer := [2, 6, 7, 1], m_lWritePointer := 1 \<rparr>, [4, 3 / 2])"
proof -
  have h: "1 \<le> binary32 (LIMIT_BETWEEN (3 / 4) 0 (m_fMaximumDelay dl4) * m_fSampleRate dl4)"
    by (simp add: dl4_def LIMIT_BETWEEN_def binary32_values)
  have "runSimpleDelayLine dl4 (3 / 4) (1 / 2) [1, 2] =
        Some (dl4 \<lparr> m_pfBuffer := [2, 6, 7, 1], m_lWritePointer := 1 \<rparr>, [4, 3 / 2])"
    by (simp add: dl4_def run_defs)
  with feedback_zero_is_plain_delay [OF valid_dl4 h, of "1 / 2" "[1, 2]"] valid_dl4 h
  show ?thesis by simp
qed

subsection \<open>C6: the feedback delay never uses a delay of zero samples\<close>

text \<open>
  Claim C6. When the clamped delay converts to 0 samples, \<^verbatim>\<open>runFeedbackDelayLine\<close> uses
  a delay of 1 sample: its result, that is the output block, the buffer and the write
  pointer, is the result for a delay port whose clamped value converts to 1 sample, for
  every input block, wet value and feedback value.
\<close>

theorem feedback_zero_delay_is_one_sample:
  assumes "to_ulong (binary32 (LIMIT_BETWEEN delay0 0 (m_fMaximumDelay dl) * m_fSampleRate dl)) = Some 0"
    and "to_ulong (binary32 (LIMIT_BETWEEN delay1 0 (m_fMaximumDelay dl) * m_fSampleRate dl)) = Some 1"
  shows "feedback_delay dl delay0 = Some 1
       \<and> runFeedbackDelayLine dl delay0 wet feedback input =
           runFeedbackDelayLine dl delay1 wet feedback input"
  using assms by (simp add: runFeedbackDelayLine_def feedback_delay_def)

theorem feedback_zero_delay_is_one_sample_witness:
  "to_ulong (binary32 (LIMIT_BETWEEN (1 / 4) 0 (m_fMaximumDelay dl4) * m_fSampleRate dl4)) = Some 0
   \<and> to_ulong (binary32 (LIMIT_BETWEEN (1 / 2) 0 (m_fMaximumDelay dl4) * m_fSampleRate dl4)) = Some 1
   \<and> runFeedbackDelayLine dl4 (1 / 4) (1 / 2) (1 / 2) [1, 2] =
       Some (dl4 \<lparr> m_pfBuffer := [17 / 4, 6, 7, 9 / 2], m_lWritePointer := 1 \<rparr>, [4, 13 / 4])
   \<and> runFeedbackDelayLine dl4 (1 / 2) (1 / 2) (1 / 2) [1, 2] =
       Some (dl4 \<lparr> m_pfBuffer := [17 / 4, 6, 7, 9 / 2], m_lWritePointer := 1 \<rparr>, [4, 13 / 4])"
proof -
  have h0: "to_ulong (binary32 (LIMIT_BETWEEN (1 / 4) 0 (m_fMaximumDelay dl4) * m_fSampleRate dl4)) = Some 0"
    by (simp add: dl4_def to_ulong_def LIMIT_BETWEEN_def binary32_values)
  have h1: "to_ulong (binary32 (LIMIT_BETWEEN (1 / 2) 0 (m_fMaximumDelay dl4) * m_fSampleRate dl4)) = Some 1"
    by (simp add: dl4_def to_ulong_def LIMIT_BETWEEN_def binary32_values)
  have "runFeedbackDelayLine dl4 (1 / 2) (1 / 2) (1 / 2) [1, 2] =
       Some (dl4 \<lparr> m_pfBuffer := [17 / 4, 6, 7, 9 / 2], m_lWritePointer := 1 \<rparr>, [4, 13 / 4])"
    by (simp add: dl4_def run_defs)
  with feedback_zero_delay_is_one_sample [OF h0 h1, of "1 / 2" "1 / 2" "[1, 2]"] h0 h1
  show ?thesis by simp
qed

subsection \<open>C7: the size of the buffer\<close>

text \<open>
  Claim C7, as it is stated, fails in three ways. The product is rounded to binary32
  before it is cast: at 100 samples per second and a maximum delay of \<^verbatim>\<open>0.01f\<close> the
  exact product is less than 1, its floor is 0 and the least power of two above 0 is 1,
  but the rounded product is 1 and the size is 2. Where the rounded product reaches
  \<open>2 ^ 63\<close> the power of two that is asked for is not a value of \<^verbatim>\<open>unsigned long\<close>,
  \<^verbatim>\<open>m_lBufferSize <<= 1\<close> wraps around to 0 and the loop of the constructor does not end:
  so it is at \<open>2 ^ 63\<close> samples per second and one second, and also at \<open>2 ^ 63 - 1\<close>
  samples per second, a rate that is rounded to \<open>2 ^ 63\<close>, while the exact product is
  less than \<open>2 ^ 63\<close>.
  And \<^verbatim>\<open>new\<close> throws for a size of \<open>2 ^ 61\<close> samples or more, whatever the memory: at
  \<open>2 ^ 61\<close> samples per second and one second the size would be \<open>2 ^ 62\<close>.
\<close>

theorem constructor_counterexample:
  "map_option (map_sum id m_lBufferSize) (DelayLine_new 100 (10737418 / 2 ^ 30) 2 real 0)
     = Some (Inr 2)
   \<and> \<lfloor>(100 :: real) * (10737418 / 2 ^ 30)\<rfloor> = 0
   \<and> DelayLine_new 9223372036854775808 1 4 real 0 = None
   \<and> DelayLine_new 9223372036854775807 1 4 real 0 = None
   \<and> \<lfloor>real (unat (9223372036854775807 :: ulong)) * 1\<rfloor> < (2 :: int) ^ 63
   \<and> DelayLine_new 2305843009213693952 1 4611686018427387904 real 0 = Some (Inl bad_alloc)"
proof -
  have a: "map_option (map_sum id m_lBufferSize) (DelayLine_new 100 (10737418 / 2 ^ 30) 2 real 0)
     = Some (Inr 2)"
    unfolding DelayLine_new_def cast_100_hundredth
    by (simp add: new_array_def grow_step grow_stop)
  have b: "\<lfloor>(100 :: real) * (10737418 / 2 ^ 30)\<rfloor> = 0" by simp
  have "(2::nat) ^ 63 < unat (9223372036854775809 :: ulong)" by simp
  from grow_diverges [OF this, of 0]
  have c: "DelayLine_new 9223372036854775808 1 4 real 0 = None"
    "DelayLine_new 9223372036854775807 1 4 real 0 = None"
    by (simp_all add: DelayLine_new_def to_ulong_def binary32_values)
  have c': "\<lfloor>real (unat (9223372036854775807 :: ulong)) * 1\<rfloor> < (2 :: int) ^ 63" by simp
  have d: "DelayLine_new 2305843009213693952 1 4611686018427387904 real 0 = Some (Inl bad_alloc)"
    by (simp add: DelayLine_new_def new_array_def to_ulong_def binary32_values grow_step grow_stop)
  from a b c c' d show ?thesis by blast
qed

text \<open>
  Claim C7, amended. Let \<open>F\<close> be the product of the sample rate, rounded to binary32,
  and the maximum delay, rounded to binary32 and truncated. When the maximum delay is
  not negative and \<open>F < 2 ^ 63\<close>, the least power of two that is greater than \<open>F\<close> is
  some \<open>2 ^ k\<close> with \<open>k \<le> 63\<close>, and the constructor returns: it throws \<^verbatim>\<open>bad_alloc\<close>
  when \<open>2 ^ k\<close> samples cannot be allocated (\<open>2 ^ 61\<close> samples or more, or more than the
  allocation function can give), and otherwise it gives a valid engine whose buffer size
  is \<open>2 ^ k\<close>. At 44100 samples per second and a maximum delay of one second the size is
  65536, when 65536 samples can be allocated.
\<close>

theorem buffer_capacity:
  assumes "0 \<le> fMaximumDelay"
    and "\<lfloor>binary32 (binary32 (real (unat lSampleRate)) * fMaximumDelay)\<rfloor> < 2 ^ 63"
  shows "(\<exists>k \<le> 63.
            \<lfloor>binary32 (binary32 (real (unat lSampleRate)) * fMaximumDelay)\<rfloor> < 2 ^ k
          \<and> (\<forall>j. \<lfloor>binary32 (binary32 (real (unat lSampleRate)) * fMaximumDelay)\<rfloor> < 2 ^ j
                 \<longrightarrow> k \<le> j)
          \<and> (if (2::nat) ^ k < 2 ^ 61 \<and> 2 ^ k \<le> avail
              then \<exists>dl. DelayLine_new lSampleRate fMaximumDelay avail junk wp0 = Some (Inr dl)
                     \<and> valid dl \<and> unat (m_lBufferSize dl) = 2 ^ k
              else DelayLine_new lSampleRate fMaximumDelay avail junk wp0 = Some (Inl bad_alloc)))
       \<and> (65536 \<le> avail \<longrightarrow>
            map_option (map_sum id m_lBufferSize) (DelayLine_new 44100 1 avail junk wp0)
              = Some (Inr 65536))"
proof
  let ?F = "\<lfloor>binary32 (binary32 (real (unat lSampleRate)) * fMaximumDelay)\<rfloor>"
  let ?dl = "\<lambda>k. \<lparr> m_fSampleRate = binary32 (real (unat lSampleRate)),
                     m_fMaximumDelay = fMaximumDelay,
                     m_pfBuffer = map junk [0 ..< 2 ^ k], m_lBufferSize = 2 ^ k,
                     m_lWritePointer = wp0 \<rparr>"
  from DelayLine_new_Some [OF assms, of avail junk wp0] obtain k where k: "k \<le> 63"
    "DelayLine_new lSampleRate fMaximumDelay avail junk wp0 =
       Some (if (2::nat) ^ k < 2 ^ 61 \<and> 2 ^ k \<le> avail then Inr (?dl k) else Inl bad_alloc)"
    "?F < 2 ^ k" "k = 0 \<or> 2 ^ (k - 1) \<le> ?F" by blast
  have least: "k \<le> j" if "?F < 2 ^ j" for j
  proof (cases "k = 0")
    case False
    with k(4) that have "(2::int) ^ (k - 1) < 2 ^ j" by linarith
    then have "k - 1 < j" by (rule power_less_imp_less_exp [rotated]) simp
    then show ?thesis by simp
  qed simp
  from k(1) have u: "unat ((2::ulong) ^ k) = 2 ^ k" by (simp add: unat_pow2)
  have "if (2::nat) ^ k < 2 ^ 61 \<and> 2 ^ k \<le> avail
        then \<exists>dl. DelayLine_new lSampleRate fMaximumDelay avail junk wp0 = Some (Inr dl)
               \<and> valid dl \<and> unat (m_lBufferSize dl) = 2 ^ k
        else DelayLine_new lSampleRate fMaximumDelay avail junk wp0 = Some (Inl bad_alloc)"
  proof (cases "(2::nat) ^ k < 2 ^ 61 \<and> 2 ^ k \<le> avail")
    case True
    with k(2) have "DelayLine_new lSampleRate fMaximumDelay avail junk wp0 = Some (Inr (?dl k))"
      by simp
    moreover note valid_new [OF k(1) assms(1) k(3), of junk wp0]
    moreover from u have "unat (m_lBufferSize (?dl k)) = 2 ^ k" by simp
    ultimately have "\<exists>dl. DelayLine_new lSampleRate fMaximumDelay avail junk wp0 = Some (Inr dl)
               \<and> valid dl \<and> unat (m_lBufferSize dl) = 2 ^ k" by blast
    with True show ?thesis by simp
  next
    case False
    with k(2) show ?thesis by auto
  qed
  with k(1,3) least
  show "\<exists>k \<le> 63. ?F < 2 ^ k \<and> (\<forall>j. ?F < 2 ^ j \<longrightarrow> k \<le> j)
          \<and> (if (2::nat) ^ k < 2 ^ 61 \<and> 2 ^ k \<le> avail
              then \<exists>dl. DelayLine_new lSampleRate fMaximumDelay avail junk wp0 = Some (Inr dl)
                     \<and> valid dl \<and> unat (m_lBufferSize dl) = 2 ^ k
              else DelayLine_new lSampleRate fMaximumDelay avail junk wp0 = Some (Inl bad_alloc))"
    by blast
next
  show "65536 \<le> avail \<longrightarrow>
            map_option (map_sum id m_lBufferSize) (DelayLine_new 44100 1 avail junk wp0)
              = Some (Inr 65536)"
    by (simp add: DelayLine_new_def new_array_def to_ulong_def binary32_values grow_step grow_stop)
qed

text \<open>
  Two instances: 44100 samples per second and one second, with 65536 samples to
  allocate; and 100 samples per second and \<^verbatim>\<open>0.01f\<close>, where the rounded product is 1
  and the size is 2.
\<close>

theorem buffer_capacity_witness:
  "(0::real) \<le> 1 \<and> \<lfloor>binary32 (binary32 (real (unat (44100 :: ulong))) * 1)\<rfloor> < 2 ^ 63
   \<and> map_option (map_sum id m_lBufferSize) (DelayLine_new 44100 1 65536 real 0) = Some (Inr 65536)
   \<and> map_option (map_sum id m_lBufferSize) (DelayLine_new 44100 1 65535 real 0) = Some (Inl bad_alloc)
   \<and> \<lfloor>binary32 (binary32 (real (unat (100 :: ulong))) * (10737418 / 2 ^ 30))\<rfloor> = 1
   \<and> DelayLine_new 100 (10737418 / 2 ^ 30) 2 ((!) [5, 6]) 1 = Some (Inr dl2)"
proof -
  have h: "(0::real) \<le> 1" "\<lfloor>binary32 (binary32 (real (unat (44100 :: ulong))) * 1)\<rfloor> < 2 ^ 63"
    by (simp_all add: binary32_values)
  have e: "\<lfloor>binary32 (binary32 (real (unat (100 :: ulong))) * (10737418 / 2 ^ 30))\<rfloor> = 1"
    by code_simp
  note e' = dl2_constructed
  have f: "map_option (map_sum id m_lBufferSize) (DelayLine_new 44100 1 65535 real 0) = Some (Inl bad_alloc)"
    by (simp add: DelayLine_new_def new_array_def to_ulong_def binary32_values grow_step grow_stop)
  from buffer_capacity [OF h, of 65536 real 0] h e e' f show ?thesis by simp
qed

subsection \<open>C8: the write pointer counts the samples\<close>

text \<open>
  Claim C8. After \<^verbatim>\<open>activateDelayLine\<close> and any sequence of blocks, each through
  either run function, all blocks are processed, the write pointer is the number of
  samples of all the blocks modulo the size of the buffer, and so it is less than the
  size. The list of blocks is arbitrary, so this holds after every block.
\<close>

theorem cursor_is_sum_mod_capacity:
  assumes "valid dl"
  shows "\<exists>dl' out. run_blocks (activateDelayLine dl) bs = Some (dl', out)
          \<and> m_lBufferSize dl' = m_lBufferSize dl
          \<and> unat (m_lWritePointer dl') =
               sum_list (map (\<lambda>b. length (block_input b)) bs) mod unat (m_lBufferSize dl)
          \<and> unat (m_lWritePointer dl') < unat (m_lBufferSize dl)"
proof -
  let ?a = "activateDelayLine dl"
  from assms obtain k where k: "k < 64" "unat (m_lBufferSize dl) = 2 ^ k" by (rule validD)
  have a: "m_lWritePointer ?a = 0" "m_lBufferSize ?a = m_lBufferSize dl"
    by (simp_all add: activateDelayLine_def)
  from run_blocks_Some [OF valid_activateDelayLine [OF assms], of bs]
  obtain dl' out where r: "run_blocks ?a bs = Some (dl', out)" "same_engine ?a dl'"
    "unat (m_lWritePointer dl') =
       (if bs = [] then unat (m_lWritePointer ?a)
        else (unat (m_lWritePointer ?a) + sum_list (map (\<lambda>b. length (block_input b)) bs))
               mod unat (m_lBufferSize ?a))"
    by blast
  from r(3) a k have wp: "unat (m_lWritePointer dl') =
      sum_list (map (\<lambda>b. length (block_input b)) bs) mod unat (m_lBufferSize dl)"
    by (cases "bs = []") simp_all
  moreover from wp k have "unat (m_lWritePointer dl') < unat (m_lBufferSize dl)" by simp
  moreover from r(2) a have "m_lBufferSize dl' = m_lBufferSize dl" by (simp add: same_engine_def)
  ultimately show ?thesis using r(1) by simp
qed

text \<open>An instance: two blocks, of 3 and 6 samples, in a buffer of 4: the pointer is 1.\<close>

theorem cursor_is_sum_mod_capacity_witness:
  "valid dl4
   \<and> (\<exists>dl' out. run_blocks (activateDelayLine dl4)
          [Echo (3 / 4) 1 [0, 1, 0], Feedback 0 (1 / 2) (1 / 2) [1, 2, 3, 4, 5, 6]] = Some (dl', out)
        \<and> unat (m_lWritePointer dl') = 1)"
proof -
  have "unat (m_lBufferSize dl4) = 4" by (simp add: dl4_def)
  with cursor_is_sum_mod_capacity [OF valid_dl4,
      of "[Echo (3 / 4) 1 [0, 1, 0], Feedback 0 (1 / 2) (1 / 2) [1, 2, 3, 4, 5, 6]]"] valid_dl4
  show ?thesis by auto
qed

subsection \<open>C9: the parameters are clamped, never rejected\<close>



subsection \<open>C10: no access outside of the buffer\<close>

text \<open>
  Claim C10. When the size of the buffer is a power of two and the buffer has that many
  samples, every index \<open>x AND (lBufferSize - 1)\<close> is less than the size, whatever \<open>x\<close>
  is. So every read and every write of the two loops is inside the buffer: the loops
  return, for every input block, every write and read offset (that is, every cursor
  and every delay) and every value of the other parameters.
\<close>

theorem buffer_access_in_bounds:
  assumes "is_power_of_two lBufferSize" and "length buf = unat lBufferSize"
  shows "unat (x AND (lBufferSize - 1)) < unat lBufferSize
       \<and> (\<exists>v. buf_read buf (x AND (lBufferSize - 1)) = Some v)
       \<and> (\<exists>buf'. buf_write buf (x AND (lBufferSize - 1)) v = Some buf')
       \<and> (\<exists>r. simple_loop (lBufferSize - 1) woff roff fDry fWet i input buf = Some r)
       \<and> (\<exists>r. feedback_loop (lBufferSize - 1) woff roff fDry fWet fFeedback i input buf = Some r)"
proof -
  from assms(1) obtain k where k: "k < 64" "lBufferSize = 2 ^ k"
    by (auto dest: is_power_of_twoD)
  with assms(2) have len: "length buf = 2 ^ k" by (simp add: unat_pow2)
  have "unat (x AND (2 ^ k - 1)) < (2::nat) ^ k" by (simp add: unat_wrap)
  moreover from simple_loop_Some [OF k(1) len, of woff roff fDry fWet i input]
  have "\<exists>r. simple_loop (2 ^ k - 1) woff roff fDry fWet i input buf = Some r" by blast
  moreover from feedback_loop_Some [OF k(1) len, of woff roff fDry fWet fFeedback i input]
  have "\<exists>r. feedback_loop (2 ^ k - 1) woff roff fDry fWet fFeedback i input buf = Some r" by blast
  ultimately show ?thesis using k len
    by (simp add: unat_pow2 buf_read_wrap buf_write_wrap)
qed

theorem buffer_access_in_bounds_witness:
  "is_power_of_two 4 \<and> length [5, 6, 7, 8 :: real] = unat (4 :: ulong)
   \<and> unat (7 AND (4 - 1) :: ulong) < unat (4 :: ulong)
   \<and> simple_loop (4 - 1) 3 6 0 1 0 [1, 2] [5, 6, 7, 8] = Some ([2, 6, 7, 1], [7, 1])
   \<and> feedback_loop (4 - 1) 3 6 0 1 1 0 [1, 2] [5, 6, 7, 8] = Some ([10, 6, 7, 8], [7, 8])"
  using buffer_access_in_bounds [of 4 "[5, 6, 7, 8]" 7 0 3 6 0 1 0 "[1, 2]" 1]
  by (simp add: is_power_of_two_4 buf_read_def buf_write_def)

end
